theory Spec2Isabelle
  imports Main "HOL-Library.Word"
begin

section \<open>Memory\<close>

text \<open>
  Addresses and \<^verbatim>\<open>size_t\<close> are 64-bit words; the null pointer is address 0.
  The memory is split by field: \<open>nxt w p\<close> is \<^verbatim>\<open>p->next\<close>, \<open>prv w p\<close> is
  \<^verbatim>\<open>p->prev\<close> of the \<^verbatim>\<open>k_list_head\<close> at \<open>p\<close>, and \<open>val w p\<close> is \<^verbatim>\<open>p->value\<close>
  of the \<^verbatim>\<open>Data\<close> at \<open>p\<close>. A \<^verbatim>\<open>Data\<close> and its \<^verbatim>\<open>siblings\<close> member are
  named by the same address, so \<^verbatim>\<open>list_entry\<close> is the identity on addresses.
  \<open>allocated\<close> is the set of blocks handed out by \<^verbatim>\<open>_allocate\<close> and not yet given
  back to \<^verbatim>\<open>_deallocate\<close>; \<open>constructed\<close> is the set of \<^verbatim>\<open>Data\<close> objects whose
  constructor has run and whose destructor has not.
\<close>

type_synonym addr = "64 word"

record 'a world =
  nxt :: "addr \<Rightarrow> addr"
  prv :: "addr \<Rightarrow> addr"
  val :: "addr \<Rightarrow> 'a"
  allocated :: "addr set"
  constructed :: "addr set"

definition list_entry :: "addr \<Rightarrow> addr" where
  "list_entry entry = entry"

section \<open>The ring primitives of rtmempool/list.h\<close>

text \<open>
  Modelled from the spec: \<^verbatim>\<open>rtmempool/list.h\<close> is included by LinkedList.hpp but is
  not among the sources. Section 4.1 of the specification describes its operations:
  initialize-empty makes the sentinel's previous and next both point to itself;
  link-before and link-after put one detached node into the ring next to a position;
  unlink takes a node out of the ring and leaves the node's own link fields in an
  unspecified state (here: two poison addresses); splice-region relinks a whole ring
  onto another sentinel, at its front or its end, and either re-initialises the source
  sentinel or leaves it as it is. The definitions below follow the assignment order of
  the Linux list primitives of the same names.
\<close>

definition LIST_POISON1 :: addr where
  "LIST_POISON1 = 0x00100100"

definition LIST_POISON2 :: addr where
  "LIST_POISON2 = 0x00200200"

definition INIT_LIST_HEAD :: "addr \<Rightarrow> 'a world \<Rightarrow> 'a world" where
  "INIT_LIST_HEAD list w = w\<lparr>nxt := (nxt w)(list := list), prv := (prv w)(list := list)\<rparr>"

definition list_add_between :: "addr \<Rightarrow> addr \<Rightarrow> addr \<Rightarrow> 'a world \<Rightarrow> 'a world" where
  "list_add_between new p n w =
     w\<lparr>prv := (prv w)(n := new, new := p), nxt := (nxt w)(new := n, p := new)\<rparr>"

definition list_add :: "addr \<Rightarrow> addr \<Rightarrow> 'a world \<Rightarrow> 'a world" where
  "list_add new head w = list_add_between new head (nxt w head) w"

definition list_add_tail :: "addr \<Rightarrow> addr \<Rightarrow> 'a world \<Rightarrow> 'a world" where
  "list_add_tail new head w = list_add_between new (prv w head) head w"

definition list_del_between :: "addr \<Rightarrow> addr \<Rightarrow> 'a world \<Rightarrow> 'a world" where
  "list_del_between p n w = w\<lparr>prv := (prv w)(n := p), nxt := (nxt w)(p := n)\<rparr>"

definition list_del :: "addr \<Rightarrow> 'a world \<Rightarrow> 'a world" where
  "list_del entry w =
     (let w1 = list_del_between (prv w entry) (nxt w entry) w
      in w1\<lparr>nxt := (nxt w1)(entry := LIST_POISON1), prv := (prv w1)(entry := LIST_POISON2)\<rparr>)"

definition list_empty :: "addr \<Rightarrow> 'a world \<Rightarrow> bool" where
  "list_empty head w \<longleftrightarrow> nxt w head = head"

definition list_splice_front :: "addr \<Rightarrow> addr \<Rightarrow> 'a world \<Rightarrow> 'a world" where
  "list_splice_front list head w =
     (let first = nxt w list; last = prv w list; at = nxt w head;
          w1 = w\<lparr>prv := (prv w)(first := head)\<rparr>;
          w2 = w1\<lparr>nxt := (nxt w1)(head := first)\<rparr>;
          w3 = w2\<lparr>nxt := (nxt w2)(last := at)\<rparr>
      in w3\<lparr>prv := (prv w3)(at := last)\<rparr>)"

definition list_splice_back :: "addr \<Rightarrow> addr \<Rightarrow> 'a world \<Rightarrow> 'a world" where
  "list_splice_back list head w =
     (let first = nxt w list; last = prv w list; at = prv w head;
          w1 = w\<lparr>prv := (prv w)(first := at)\<rparr>;
          w2 = w1\<lparr>nxt := (nxt w1)(at := first)\<rparr>;
          w3 = w2\<lparr>nxt := (nxt w2)(last := head)\<rparr>
      in w3\<lparr>prv := (prv w3)(head := last)\<rparr>)"

definition list_splice :: "addr \<Rightarrow> addr \<Rightarrow> 'a world \<Rightarrow> 'a world" where
  "list_splice list head w = (if \<not> list_empty list w then list_splice_front list head w else w)"

definition list_splice_init :: "addr \<Rightarrow> addr \<Rightarrow> 'a world \<Rightarrow> 'a world" where
  "list_splice_init list head w =
     (if \<not> list_empty list w then INIT_LIST_HEAD list (list_splice_front list head w) else w)"

definition list_splice_tail :: "addr \<Rightarrow> addr \<Rightarrow> 'a world \<Rightarrow> 'a world" where
  "list_splice_tail list head w = (if \<not> list_empty list w then list_splice_back list head w else w)"

definition list_splice_tail_init :: "addr \<Rightarrow> addr \<Rightarrow> 'a world \<Rightarrow> 'a world" where
  "list_splice_tail_init list head w =
     (if \<not> list_empty list w then INIT_LIST_HEAD list (list_splice_back list head w) else w)"

section \<open>AbstractLinkedList\<close>

text \<open>
  The list object holds \<^verbatim>\<open>fCount\<close>, \<^verbatim>\<open>fNeedsCopyCtr\<close> and \<^verbatim>\<open>fRetValue\<close>; its
  sentinel \<^verbatim>\<open>fQueue\<close> lives in the memory, because nodes point to it, and the record
  stores the sentinel's address. \<^verbatim>\<open>fDataSize\<close> is a byte count and is not modelled.
\<close>

record 'a AbstractLinkedList =
  fCount :: "64 word"
  fQueue :: addr
  fNeedsCopyCtr :: bool
  fRetValue :: 'a

text \<open>
  What the surroundings of one insertion decide: the pointer \<^verbatim>\<open>_allocate()\<close> returns
  (0 for failure), whether \<^verbatim>\<open>new(data) Data()\<close> throws, whether
  \<^verbatim>\<open>data->value = value\<close> throws, the value a default-constructed \<open>T\<close> has, and the
  bytes that \<^verbatim>\<open>memcpy\<close> of \<^verbatim>\<open>fDataSize\<close> bytes writes over the node's link fields
  under the raw-copy discipline.
\<close>

record 'a env =
  allocate_result :: addr
  ctor_throws :: bool
  assign_throws :: bool
  default_value :: 'a
  stray_next :: addr
  stray_prev :: addr

text \<open>\<^verbatim>\<open>LinkedList::_deallocate\<close>: nothing for the null pointer, otherwise the block is freed.\<close>

definition priv_deallocate :: "addr \<Rightarrow> 'a world \<Rightarrow> 'a world" where
  "priv_deallocate dataPtr w =
     (if dataPtr = 0 then w else w\<lparr>allocated := allocated w - {dataPtr}\<rparr>)"

text \<open>\<^verbatim>\<open>data->~Data()\<close>.\<close>

definition destroy :: "addr \<Rightarrow> 'a world \<Rightarrow> 'a world" where
  "destroy data w = w\<lparr>constructed := constructed w - {data}\<rparr>"

text \<open>\<^verbatim>\<open>if (fNeedsCopyCtr) data->~Data(); _deallocate(data);\<close>\<close>

definition release :: "'a AbstractLinkedList \<Rightarrow> addr \<Rightarrow> 'a world \<Rightarrow> 'a world" where
  "release l data w = priv_deallocate data (if fNeedsCopyCtr l then destroy data w else w)"

definition priv_init :: "'a world \<Rightarrow> 'a AbstractLinkedList \<Rightarrow> 'a world \<times> 'a AbstractLinkedList" where
  "priv_init w l = (INIT_LIST_HEAD (fQueue l) w, l\<lparr>fCount := 0\<rparr>)"

text \<open>The constructor, for a list object whose sentinel is at address \<open>q\<close>.\<close>

definition new_list :: "addr \<Rightarrow> bool \<Rightarrow> 'a \<Rightarrow> 'a world \<Rightarrow> 'a world \<times> 'a AbstractLinkedList" where
  "new_list q needsCopyCtr rv w =
     priv_init w \<lparr>fCount = 0, fQueue = q, fNeedsCopyCtr = needsCopyCtr, fRetValue = rv\<rparr>"

definition priv_createData ::
  "'a env \<Rightarrow> addr \<Rightarrow> 'a \<Rightarrow> 'a world \<Rightarrow> 'a AbstractLinkedList \<Rightarrow> bool \<times> 'a world" where
  "priv_createData e data v w l =
     (if fNeedsCopyCtr l then
        if ctor_throws e then (False, priv_deallocate data w)
        else
          let w1 = w\<lparr>val := (val w)(data := default_value e),
                     nxt := (nxt w)(data := 0), prv := (prv w)(data := 0),
                     constructed := insert data (constructed w)\<rparr>
          in if assign_throws e then (False, priv_deallocate data (destroy data w1))
             else (True, w1\<lparr>val := (val w1)(data := v)\<rparr>)
      else (True, w\<lparr>val := (val w)(data := v),
                     nxt := (nxt w)(data := stray_next e),
                     prv := (prv w)(data := stray_prev e)\<rparr>))"

definition priv_add ::
  "'a env \<Rightarrow> 'a \<Rightarrow> bool \<Rightarrow> addr \<Rightarrow> 'a world \<Rightarrow> 'a AbstractLinkedList
     \<Rightarrow> bool \<times> 'a world \<times> 'a AbstractLinkedList" where
  "priv_add e v inTail queue w l =
     (let data = allocate_result e in
      if data \<noteq> 0 then
        let w1 = w\<lparr>allocated := insert data (allocated w)\<rparr>;
            (ok, w2) = priv_createData e data v w1 l
        in if \<not> ok then (False, w2, l)
           else (True,
                 (if inTail then list_add_tail data queue w2 else list_add data queue w2),
                 l\<lparr>fCount := fCount l + 1\<rparr>)
      else (False, w, l))"

subsection \<open>Itenerator\<close>

record Itenerator =
  fData :: addr
  fEntry :: addr
  fEntry2 :: addr
  fQueueRef :: addr

definition new_Itenerator :: "addr \<Rightarrow> 'a world \<Rightarrow> Itenerator" where
  "new_Itenerator queue w =
     \<lparr>fData = 0, fEntry = nxt w queue, fEntry2 = nxt w (nxt w queue), fQueueRef = queue\<rparr>"

definition valid :: "Itenerator \<Rightarrow> bool" where
  "valid it \<longleftrightarrow> fEntry it \<noteq> fQueueRef it"

definition it_next :: "'a world \<Rightarrow> Itenerator \<Rightarrow> Itenerator" where
  "it_next w it = it\<lparr>fEntry := fEntry2 it, fEntry2 := nxt w (fEntry2 it)\<rparr>"

definition getValue :: "'a world \<Rightarrow> Itenerator \<Rightarrow> 'a \<times> Itenerator" where
  "getValue w it = (val w (list_entry (fEntry it)), it\<lparr>fData := list_entry (fEntry it)\<rparr>)"

definition setValue :: "'a \<Rightarrow> 'a world \<Rightarrow> Itenerator \<Rightarrow> 'a world \<times> Itenerator" where
  "setValue v w it =
     (w\<lparr>val := (val w)(list_entry (fEntry it) := v)\<rparr>, it\<lparr>fData := list_entry (fEntry it)\<rparr>)"

definition begin_it :: "'a world \<Rightarrow> 'a AbstractLinkedList \<Rightarrow> Itenerator" where
  "begin_it w l = new_Itenerator (fQueue l) w"

subsection \<open>Public operations\<close>

definition count :: "'a AbstractLinkedList \<Rightarrow> 64 word" where
  "count l = fCount l"

definition isEmpty :: "'a AbstractLinkedList \<Rightarrow> bool" where
  "isEmpty l \<longleftrightarrow> fCount l = 0"

definition append ::
  "'a env \<Rightarrow> 'a \<Rightarrow> 'a world \<Rightarrow> 'a AbstractLinkedList \<Rightarrow> bool \<times> 'a world \<times> 'a AbstractLinkedList" where
  "append e v w l = priv_add e v True (fQueue l) w l"

definition appendAt ::
  "'a env \<Rightarrow> 'a \<Rightarrow> Itenerator \<Rightarrow> 'a world \<Rightarrow> 'a AbstractLinkedList
     \<Rightarrow> bool \<times> 'a world \<times> 'a AbstractLinkedList" where
  "appendAt e v it w l = priv_add e v True (nxt w (fEntry it)) w l"

definition insert_front ::
  "'a env \<Rightarrow> 'a \<Rightarrow> 'a world \<Rightarrow> 'a AbstractLinkedList \<Rightarrow> bool \<times> 'a world \<times> 'a AbstractLinkedList" where
  "insert_front e v w l = priv_add e v False (fQueue l) w l"

definition insertAt ::
  "'a env \<Rightarrow> 'a \<Rightarrow> Itenerator \<Rightarrow> 'a world \<Rightarrow> 'a AbstractLinkedList
     \<Rightarrow> bool \<times> 'a world \<times> 'a AbstractLinkedList" where
  "insertAt e v it w l = priv_add e v False (prv w (fEntry it)) w l"

text \<open>
  \<^verbatim>\<open>list_for_each_safe(entry, entry2, &fQueue)\<close> starts with \<^verbatim>\<open>entry = fQueue.next\<close>,
  \<^verbatim>\<open>entry2 = entry->next\<close>, runs while \<^verbatim>\<open>entry != &fQueue\<close> and steps with
  \<^verbatim>\<open>entry = entry2, entry2 = entry->next\<close>. Each loop below carries \<open>entry\<close> and
  \<open>entry2\<close>; a loop that never reaches the sentinel has the value \<open>None\<close>.
\<close>

partial_function (option) clear_loop ::
  "addr \<Rightarrow> addr \<Rightarrow> 'a world \<Rightarrow> 'a AbstractLinkedList \<Rightarrow> 'a world option" where
  "clear_loop entry entry2 w l =
     (if entry = fQueue l then Some w
      else if list_entry entry \<noteq> 0
        then clear_loop entry2 (nxt (release l (list_entry entry) w) entry2)
               (release l (list_entry entry) w) l
        else clear_loop entry2 (nxt w entry2) w l)"

definition clear ::
  "'a world \<Rightarrow> 'a AbstractLinkedList \<Rightarrow> ('a world \<times> 'a AbstractLinkedList) option" where
  "clear w l =
     (if fCount l \<noteq> 0
      then map_option (\<lambda>w'. priv_init w' l)
             (clear_loop (nxt w (fQueue l)) (nxt w (nxt w (fQueue l))) w l)
      else Some (priv_init w l))"

text \<open>The read-only \<^verbatim>\<open>getAt(index)\<close>; the result is the new \<^verbatim>\<open>fRetValue\<close>.\<close>

partial_function (option) getAt_const_loop ::
  "64 word \<Rightarrow> addr \<Rightarrow> addr \<Rightarrow> 64 word \<Rightarrow> 'a world \<Rightarrow> 'a AbstractLinkedList
     \<Rightarrow> 'a AbstractLinkedList option" where
  "getAt_const_loop index entry entry2 i w l =
     (if entry = fQueue l then Some l
      else if index \<noteq> i then getAt_const_loop index entry2 (nxt w entry2) (i + 1) w l
      else Some (if list_entry entry \<noteq> 0 then l\<lparr>fRetValue := val w (list_entry entry)\<rparr> else l))"

definition getAt_const ::
  "64 word \<Rightarrow> 'a world \<Rightarrow> 'a AbstractLinkedList \<Rightarrow> ('a \<times> 'a AbstractLinkedList) option" where
  "getAt_const index w l =
     (if fCount l = 0 \<or> index \<ge> fCount l then Some (fRetValue l, l)
      else map_option (\<lambda>l'. (fRetValue l', l'))
             (getAt_const_loop index (nxt w (fQueue l)) (nxt w (nxt w (fQueue l))) 0 w l))"

text \<open>
  The body shared by \<^verbatim>\<open>getAt(index, removeObj)\<close> and \<^verbatim>\<open>_getFirstOrLast\<close> once the
  entry is found: copy the value out, then unlink and release if asked to.
\<close>

definition take_entry ::
  "bool \<Rightarrow> addr \<Rightarrow> 'a world \<Rightarrow> 'a AbstractLinkedList \<Rightarrow> 'a world \<times> 'a AbstractLinkedList" where
  "take_entry removeObj entry w l =
     (let data = list_entry entry;
          l1 = (if data \<noteq> 0 then l\<lparr>fRetValue := val w data\<rparr> else l)
      in if removeObj
         then let l2 = l1\<lparr>fCount := fCount l1 - 1\<rparr>;
                  w2 = list_del entry w
              in (if data \<noteq> 0 then release l data w2 else w2, l2)
         else (w, l1))"

partial_function (option) getAt_loop ::
  "64 word \<Rightarrow> bool \<Rightarrow> addr \<Rightarrow> addr \<Rightarrow> 64 word \<Rightarrow> 'a world \<Rightarrow> 'a AbstractLinkedList
     \<Rightarrow> ('a world \<times> 'a AbstractLinkedList) option" where
  "getAt_loop index removeObj entry entry2 i w l =
     (if entry = fQueue l then Some (w, l)
      else if index \<noteq> i then getAt_loop index removeObj entry2 (nxt w entry2) (i + 1) w l
      else Some (take_entry removeObj entry w l))"

definition getAt ::
  "64 word \<Rightarrow> bool \<Rightarrow> 'a world \<Rightarrow> 'a AbstractLinkedList
     \<Rightarrow> ('a \<times> 'a world \<times> 'a AbstractLinkedList) option" where
  "getAt index removeObj w l =
     (if fCount l = 0 \<or> index \<ge> fCount l then Some (fRetValue l, w, l)
      else map_option (\<lambda>(w', l'). (fRetValue l', w', l'))
             (getAt_loop index removeObj (nxt w (fQueue l)) (nxt w (nxt w (fQueue l))) 0 w l))"

definition priv_getFirstOrLast ::
  "bool \<Rightarrow> bool \<Rightarrow> 'a world \<Rightarrow> 'a AbstractLinkedList \<Rightarrow> 'a \<times> 'a world \<times> 'a AbstractLinkedList" where
  "priv_getFirstOrLast first removeObj w l =
     (if fCount l = 0 then (fRetValue l, w, l)
      else let entry = (if first then nxt w (fQueue l) else prv w (fQueue l));
               (w', l') = take_entry removeObj entry w l
           in (fRetValue l', w', l'))"

definition getFirst ::
  "bool \<Rightarrow> 'a world \<Rightarrow> 'a AbstractLinkedList \<Rightarrow> 'a \<times> 'a world \<times> 'a AbstractLinkedList" where
  "getFirst removeObj w l = priv_getFirstOrLast True removeObj w l"

definition getLast ::
  "bool \<Rightarrow> 'a world \<Rightarrow> 'a AbstractLinkedList \<Rightarrow> 'a \<times> 'a world \<times> 'a AbstractLinkedList" where
  "getLast removeObj w l = priv_getFirstOrLast False removeObj w l"

text \<open>
  \<^verbatim>\<open>remove(it)\<close>: the first assertion returns before anything is done, the second
  returns after the node is unlinked and counted out but before it is released.
\<close>

definition remove ::
  "Itenerator \<Rightarrow> 'a world \<Rightarrow> 'a AbstractLinkedList \<Rightarrow> 'a world \<times> 'a AbstractLinkedList" where
  "remove it w l =
     (if fEntry it = 0 then (w, l)
      else let l1 = l\<lparr>fCount := fCount l - 1\<rparr>;
               w1 = list_del (fEntry it) w
           in if fData it = 0 then (w1, l1) else (release l (fData it) w1, l1))"

text \<open>
  \<^verbatim>\<open>removeOne\<close>: the loop carries the local \<^verbatim>\<open>data\<close>, which starts as the null
  pointer, is assigned in every iteration, and decides the result after the loop.
\<close>

partial_function (option) removeOne_loop ::
  "'a \<Rightarrow> addr \<Rightarrow> addr \<Rightarrow> addr \<Rightarrow> 'a world \<Rightarrow> 'a AbstractLinkedList
     \<Rightarrow> (addr \<times> 'a world \<times> 'a AbstractLinkedList) option" where
  "removeOne_loop v entry entry2 data w l =
     (if entry = fQueue l then Some (data, w, l)
      else if list_entry entry = 0
        then removeOne_loop v entry2 (nxt w entry2) (list_entry entry) w l
      else if val w (list_entry entry) = v
        then Some (list_entry entry,
                   release l (list_entry entry) (list_del entry w),
                   l\<lparr>fCount := fCount l - 1\<rparr>)
      else removeOne_loop v entry2 (nxt w entry2) (list_entry entry) w l)"

definition removeOne ::
  "'a \<Rightarrow> 'a world \<Rightarrow> 'a AbstractLinkedList \<Rightarrow> (bool \<times> 'a world \<times> 'a AbstractLinkedList) option" where
  "removeOne v w l =
     map_option (\<lambda>(data, w', l'). (data \<noteq> 0, w', l'))
       (removeOne_loop v (nxt w (fQueue l)) (nxt w (nxt w (fQueue l))) 0 w l)"

partial_function (option) removeAll_loop ::
  "'a \<Rightarrow> addr \<Rightarrow> addr \<Rightarrow> 'a world \<Rightarrow> 'a AbstractLinkedList
     \<Rightarrow> ('a world \<times> 'a AbstractLinkedList) option" where
  "removeAll_loop v entry entry2 w l =
     (if entry = fQueue l then Some (w, l)
      else if list_entry entry = 0
        then removeAll_loop v entry2 (nxt w entry2) w l
      else if val w (list_entry entry) = v
        then removeAll_loop v entry2
               (nxt (release l (list_entry entry) (list_del entry w)) entry2)
               (release l (list_entry entry) (list_del entry w))
               (l\<lparr>fCount := fCount l - 1\<rparr>)
      else removeAll_loop v entry2 (nxt w entry2) w l)"

definition removeAll_values ::
  "'a \<Rightarrow> 'a world \<Rightarrow> 'a AbstractLinkedList \<Rightarrow> ('a world \<times> 'a AbstractLinkedList) option" where
  "removeAll_values v w l =
     removeAll_loop v (nxt w (fQueue l)) (nxt w (nxt w (fQueue l))) w l"

text \<open>
  The splices work on two list objects, \<open>this\<close> and \<open>list\<close>, in one memory and return
  both objects.
\<close>

definition spliceAppend ::
  "bool \<Rightarrow> 'a world \<Rightarrow> 'a AbstractLinkedList \<Rightarrow> 'a AbstractLinkedList
     \<Rightarrow> 'a world \<times> 'a AbstractLinkedList \<times> 'a AbstractLinkedList" where
  "spliceAppend init w this list =
     (if init
      then (list_splice_tail_init (fQueue this) (fQueue list) w,
            this\<lparr>fCount := 0\<rparr>,
            list\<lparr>fCount := fCount list + fCount this\<rparr>)
      else (list_splice_tail (fQueue this) (fQueue list) w,
            this,
            list\<lparr>fCount := fCount list + fCount this\<rparr>))"

definition spliceInsert ::
  "bool \<Rightarrow> 'a world \<Rightarrow> 'a AbstractLinkedList \<Rightarrow> 'a AbstractLinkedList
     \<Rightarrow> 'a world \<times> 'a AbstractLinkedList \<times> 'a AbstractLinkedList" where
  "spliceInsert init w this list =
     (if init
      then (list_splice_init (fQueue this) (fQueue list) w,
            this\<lparr>fCount := 0\<rparr>,
            list\<lparr>fCount := fCount list + fCount this\<rparr>)
      else (list_splice (fQueue this) (fQueue list) w,
            this,
            list\<lparr>fCount := fCount list + fCount this\<rparr>))"

section \<open>Traversals\<close>

text \<open>
  Head-to-tail iteration as a caller writes it:
  \<^verbatim>\<open>for (it = list.begin(); it.valid(); it.next()) use(it.getValue());\<close>
\<close>

partial_function (option) iterate_values :: "'a world \<Rightarrow> Itenerator \<Rightarrow> 'a list option" where
  "iterate_values w it =
     (if valid it
      then Option.bind (iterate_values w (it_next w (snd (getValue w it))))
             (\<lambda>vs. Some (fst (getValue w it) # vs))
      else Some [])"

definition to_list :: "'a world \<Rightarrow> 'a AbstractLinkedList \<Rightarrow> 'a list option" where
  "to_list w l = iterate_values w (begin_it w l)"

text \<open>
  The nodes met by following \<^verbatim>\<open>next\<close> from the sentinel until the sentinel is met
  again, and the nodes met by following \<^verbatim>\<open>prev\<close> in the same way. The source has no
  function for either walk; they state what the tracked count is compared with.
\<close>

partial_function (option) forward_walk :: "'a world \<Rightarrow> addr \<Rightarrow> addr \<Rightarrow> addr list option" where
  "forward_walk w head p =
     (if p = head then Some []
      else Option.bind (forward_walk w head (nxt w p)) (\<lambda>ps. Some (p # ps)))"

partial_function (option) backward_walk :: "'a world \<Rightarrow> addr \<Rightarrow> addr \<Rightarrow> addr list option" where
  "backward_walk w head p =
     (if p = head then Some []
      else Option.bind (backward_walk w head (prv w p)) (\<lambda>ps. Some (p # ps)))"

definition forward_nodes :: "'a world \<Rightarrow> 'a AbstractLinkedList \<Rightarrow> addr list option" where
  "forward_nodes w l = forward_walk w (fQueue l) (nxt w (fQueue l))"

definition backward_nodes :: "'a world \<Rightarrow> 'a AbstractLinkedList \<Rightarrow> addr list option" where
  "backward_nodes w l = backward_walk w (fQueue l) (prv w (fQueue l))"

section \<open>Well-formed lists\<close>

text \<open>
  \<open>path f p xs q\<close>: following \<open>f\<close> from \<open>p\<close> meets the nodes \<open>xs\<close> in this order and
  then \<open>q\<close>.
\<close>

fun path :: "(addr \<Rightarrow> addr) \<Rightarrow> addr \<Rightarrow> addr list \<Rightarrow> addr \<Rightarrow> bool" where
  "path f p [] q \<longleftrightarrow> f p = q"
| "path f p (x # xs) q \<longleftrightarrow> f p = x \<and> path f x xs q"

text \<open>
  \<open>ring w h xs\<close>: the sentinel \<open>h\<close> and the nodes \<open>xs\<close> form a circular doubly-linked
  list, \<open>xs\<close> in head-to-tail order.
\<close>

definition ring :: "'a world \<Rightarrow> addr \<Rightarrow> addr list \<Rightarrow> bool" where
  "ring w h xs \<longleftrightarrow>
     path (nxt w) h xs h \<and> path (prv w) h (rev xs) h \<and> distinct (h # xs)"

text \<open>
  \<open>wellformed w l xs\<close>: the list object \<open>l\<close> owns exactly the nodes \<open>xs\<close>; they form its
  ring, are live blocks of the allocator, none is the null pointer, and \<^verbatim>\<open>fCount\<close> is
  their number.
\<close>

definition wellformed :: "'a world \<Rightarrow> 'a AbstractLinkedList \<Rightarrow> addr list \<Rightarrow> bool" where
  "wellformed w l xs \<longleftrightarrow>
     ring w (fQueue l) xs \<and> unat (fCount l) = length xs
     \<and> list_all (\<lambda>p. p \<noteq> 0 \<and> p \<in> allocated w) xs"

text \<open>
  What a caller may rely on from \<^verbatim>\<open>_allocate\<close>: a block it returns is not one it has
  handed out and not got back, and is not the list object itself.
\<close>

definition allocator_contract :: "'a env \<Rightarrow> 'a world \<Rightarrow> 'a AbstractLinkedList \<Rightarrow> bool" where
  "allocator_contract e w l \<longleftrightarrow>
     allocate_result e = 0
     \<or> (allocate_result e \<notin> allocated w \<and> allocate_result e \<noteq> fQueue l)"

text \<open>An insertion whose allocation and value construction both succeed.\<close>

definition succeeds :: "'a env \<Rightarrow> 'a AbstractLinkedList \<Rightarrow> bool" where
  "succeeds e l \<longleftrightarrow>
     allocate_result e \<noteq> 0 \<and> (fNeedsCopyCtr l \<longrightarrow> \<not> ctor_throws e \<and> \<not> assign_throws e)"

section \<open>Sequences of operations\<close>

text \<open>
  An iterator position is reached by \<^verbatim>\<open>begin()\<close> followed by a number of
  \<^verbatim>\<open>next()\<close> calls. What a caller does with one iterator is a list of calls on it:
  \<open>Iterate cs\<close> calls \<^verbatim>\<open>begin()\<close> and then makes the calls \<open>cs\<close> in this order,
  where \<open>RemoveHere\<close> is \<^verbatim>\<open>list.remove(it)\<close>.
\<close>

datatype 'a it_call = Next | GetValue | SetValue 'a | RemoveHere

fun session ::
  "'a it_call list \<Rightarrow> Itenerator \<Rightarrow> 'a world \<Rightarrow> 'a AbstractLinkedList
     \<Rightarrow> Itenerator \<times> 'a world \<times> 'a AbstractLinkedList" where
  "session [] it w l = (it, w, l)"
| "session (Next # cs) it w l = session cs (it_next w it) w l"
| "session (GetValue # cs) it w l = session cs (snd (getValue w it)) w l"
| "session (SetValue v # cs) it w l = session cs (snd (setValue v w it)) (fst (setValue v w it)) l"
| "session (RemoveHere # cs) it w l = session cs it (fst (remove it w l)) (snd (remove it w l))"

text \<open>
  The iterator calls the interface allows: \<^verbatim>\<open>remove(it)\<close> and \<^verbatim>\<open>setValue\<close> need
  \<^verbatim>\<open>it.valid()\<close>, and once the node an iterator stands on has been removed (\<open>gone\<close>),
  only \<^verbatim>\<open>next()\<close> may be called on it.
\<close>

fun session_permitted ::
  "bool \<Rightarrow> 'a it_call list \<Rightarrow> Itenerator \<Rightarrow> 'a world \<Rightarrow> 'a AbstractLinkedList \<Rightarrow> bool" where
  "session_permitted gone [] it w l \<longleftrightarrow> True"
| "session_permitted gone (Next # cs) it w l \<longleftrightarrow> session_permitted False cs (it_next w it) w l"
| "session_permitted gone (GetValue # cs) it w l \<longleftrightarrow>
     \<not> gone \<and> session_permitted False cs (snd (getValue w it)) w l"
| "session_permitted gone (SetValue v # cs) it w l \<longleftrightarrow>
     \<not> gone \<and> valid it
     \<and> session_permitted False cs (snd (setValue v w it)) (fst (setValue v w it)) l"
| "session_permitted gone (RemoveHere # cs) it w l \<longleftrightarrow>
     \<not> gone \<and> valid it
     \<and> session_permitted True cs it (fst (remove it w l)) (snd (remove it w l))"

datatype 'a operation =
    Append "'a env" 'a
  | Insert "'a env" 'a
  | AppendAt "'a env" 'a nat
  | InsertAt "'a env" 'a nat
  | Iterate "'a it_call list"
  | RemoveOne 'a
  | RemoveAll 'a
  | GetAt "64 word" bool
  | GetFirst bool
  | GetLast bool
  | Clear

fun iterator_at :: "nat \<Rightarrow> 'a world \<Rightarrow> 'a AbstractLinkedList \<Rightarrow> Itenerator" where
  "iterator_at 0 w l = begin_it w l"
| "iterator_at (Suc n) w l = it_next w (iterator_at n w l)"

text \<open>
  The calls the interface allows: an insertion needs an allocator that keeps its
  contract, and the calls on an iterator are those of \<open>session_permitted\<close>.
\<close>

fun permitted :: "'a operation \<Rightarrow> 'a world \<Rightarrow> 'a AbstractLinkedList \<Rightarrow> bool" where
  "permitted (Append e v) w l = allocator_contract e w l"
| "permitted (Insert e v) w l = allocator_contract e w l"
| "permitted (AppendAt e v n) w l = allocator_contract e w l"
| "permitted (InsertAt e v n) w l = allocator_contract e w l"
| "permitted (Iterate cs) w l = session_permitted False cs (begin_it w l) w l"
| "permitted (RemoveOne v) w l = True"
| "permitted (RemoveAll v) w l = True"
| "permitted (GetAt index removeObj) w l = True"
| "permitted (GetFirst removeObj) w l = True"
| "permitted (GetLast removeObj) w l = True"
| "permitted Clear w l = True"

fun perform ::
  "'a operation \<Rightarrow> 'a world \<Rightarrow> 'a AbstractLinkedList
     \<Rightarrow> ('a world \<times> 'a AbstractLinkedList) option" where
  "perform (Append e v) w l = Some (snd (append e v w l))"
| "perform (Insert e v) w l = Some (snd (insert_front e v w l))"
| "perform (AppendAt e v n) w l = Some (snd (appendAt e v (iterator_at n w l) w l))"
| "perform (InsertAt e v n) w l = Some (snd (insertAt e v (iterator_at n w l) w l))"
| "perform (Iterate cs) w l = Some (snd (session cs (begin_it w l) w l))"
| "perform (RemoveOne v) w l = map_option snd (removeOne v w l)"
| "perform (RemoveAll v) w l = removeAll_values v w l"
| "perform (GetAt index removeObj) w l = map_option snd (getAt index removeObj w l)"
| "perform (GetFirst removeObj) w l = Some (snd (getFirst removeObj w l))"
| "perform (GetLast removeObj) w l = Some (snd (getLast removeObj w l))"
| "perform Clear w l = clear w l"

datatype 'a outcome = Misuse | Diverges | Finished 'a

fun run ::
  "'a operation list \<Rightarrow> 'a world \<Rightarrow> 'a AbstractLinkedList
     \<Rightarrow> ('a world \<times> 'a AbstractLinkedList) outcome" where
  "run [] w l = Finished (w, l)"
| "run (x # xs) w l =
     (if \<not> permitted x w l then Misuse
      else case perform x w l of
             None \<Rightarrow> Diverges
           | Some (w', l') \<Rightarrow> run xs w' l')"





section \<open>Example states\<close>

text \<open>
  A memory in which nothing is allocated, an allocator answer that hands out the block
  at \<open>p\<close> with nothing thrown, and the state reached by appending values at given
  addresses. They give the concrete inputs at which the results below are instantiated.
\<close>

definition blank :: "string world" where
  "blank = \<lparr>nxt = (\<lambda>_. 0), prv = (\<lambda>_. 0), val = (\<lambda>_. []), allocated = {}, constructed = {}\<rparr>"

definition gives :: "addr \<Rightarrow> string env" where
  "gives p = \<lparr>allocate_result = p, ctor_throws = False, assign_throws = False,
              default_value = [], stray_next = 0, stray_prev = 0\<rparr>"

definition appended ::
  "(addr \<times> string) list \<Rightarrow> string world \<times> string AbstractLinkedList
     \<Rightarrow> string world \<times> string AbstractLinkedList" where
  "appended pvs s = fold (\<lambda>(p, v) (w, l). snd (append (gives p) v w l)) pvs s"

definition one_a :: "string world \<times> string AbstractLinkedList" where
  "one_a = appended [(0x2000, ''a'')] (new_list 0x1000 True [] blank)"

definition fresh_list :: "string world \<times> string AbstractLinkedList" where
  "fresh_list = new_list 0x1000 True [] blank"


definition two_items :: "string world \<times> string AbstractLinkedList" where
  "two_items = appended [(0x2000, ''a''), (0x3000, ''b'')] fresh_list"

definition abc :: "string world \<times> string AbstractLinkedList" where
  "abc = appended [(0x2000, ''a''), (0x3000, ''b''), (0x4000, ''c'')] fresh_list"

definition abbc :: "string world \<times> string AbstractLinkedList" where
  "abbc = appended [(0x2000, ''a''), (0x3000, ''b''), (0x4000, ''b''), (0x5000, ''c'')] fresh_list"

text \<open>An allocator answer that hands out the block at \<open>p\<close>, with the assignment throwing.\<close>

definition throwing :: "addr \<Rightarrow> string env" where
  "throwing p = (gives p)\<lparr>assign_throws := True\<rparr>"

text \<open>Appending, and prepending, a list of values, each with its own allocator answer.\<close>

definition appends :: "('a env \<times> 'a) list \<Rightarrow> 'a operation list" where
  "appends evs = map (\<lambda>(e, v). Append e v) evs"

definition inserts :: "('a env \<times> 'a) list \<Rightarrow> 'a operation list" where
  "inserts evs = map (\<lambda>(e, v). Insert e v) evs"



definition three_values :: "(string env \<times> string) list" where
  "three_values = [(gives 0x2000, ''a''), (gives 0x3000, ''b''), (gives 0x4000, ''c'')]"

text \<open>
  Two lists in one memory: the first holds "a", "b", "c", the second holds "x", "y".
\<close>

definition two_lists ::
  "string world \<times> string AbstractLinkedList \<times> string AbstractLinkedList" where
  "two_lists =
     (let (w1, a) = appended [(0x2000, ''a''), (0x3000, ''b''), (0x4000, ''c'')]
                      (new_list 0x1000 True [] blank);
          (w2, b) = appended [(0x5000, ''x''), (0x6000, ''y'')] (new_list 0x1100 True [] w1)
      in (w2, a, b))"

definition tl_world :: "string world" where
  "tl_world = fst two_lists"

definition tl_first :: "string AbstractLinkedList" where
  "tl_first = fst (snd two_lists)"

definition tl_second :: "string AbstractLinkedList" where
  "tl_second = snd (snd two_lists)"

section \<open>Iterating and removing\<close>

text \<open>
  A caller's loop over the list that reads every element and removes some of them
  through the iterator:
  \<^verbatim>\<open>for (it = list.begin(); it.valid(); it.next()) { visit(it.getValue()); if (rm(i++)) list.remove(it); }\<close>
  The result is the sequence of values read and the state afterwards; \<open>rm\<close> says by
  position which elements are removed.
\<close>

partial_function (option) visit_loop ::
  "(nat \<Rightarrow> bool) \<Rightarrow> nat \<Rightarrow> Itenerator \<Rightarrow> 'a world \<Rightarrow> 'a AbstractLinkedList
     \<Rightarrow> ('a list \<times> 'a world \<times> 'a AbstractLinkedList) option" where
  "visit_loop rm i it w l =
     (if valid it
      then Option.bind
             (visit_loop rm (Suc i)
                (it_next (fst (if rm i then remove (snd (getValue w it)) w l else (w, l)))
                   (snd (getValue w it)))
                (fst (if rm i then remove (snd (getValue w it)) w l else (w, l)))
                (snd (if rm i then remove (snd (getValue w it)) w l else (w, l))))
             (\<lambda>r. Some (fst (getValue w it) # fst r, snd r))
      else Some ([], w, l))"

definition iterate_removing ::
  "(nat \<Rightarrow> bool) \<Rightarrow> 'a world \<Rightarrow> 'a AbstractLinkedList
     \<Rightarrow> ('a list \<times> 'a world \<times> 'a AbstractLinkedList) option" where
  "iterate_removing rm w l = visit_loop rm 0 (begin_it w l) w l"

text \<open>The elements of a sequence that \<open>rm\<close> does not remove, positions counted from \<open>i\<close>.\<close>

fun kept :: "(nat \<Rightarrow> bool) \<Rightarrow> nat \<Rightarrow> 'b list \<Rightarrow> 'b list" where
  "kept rm i [] = []"
| "kept rm i (x # xs) = (if rm i then kept rm (Suc i) xs else x # kept rm (Suc i) xs)"

section \<open>The MIME type table\<close>

text \<open>
  \<^verbatim>\<open>MimeTypeTableEntry\<close> and its static \<^verbatim>\<open>table[641]\<close>, row by row as in
  juce_common_MimeTypes.cpp; \<open>row e m\<close> is the aggregate \<^verbatim>\<open>{e, m}\<close>.
\<close>

record MimeTypeTableEntry =
  fileExtension :: string
  mimeType :: string

definition row :: "string \<Rightarrow> string \<Rightarrow> MimeTypeTableEntry" where
  "row e m = \<lparr>fileExtension = e, mimeType = m\<rparr>"

definition table_rows_0 :: "MimeTypeTableEntry list" where
  "table_rows_0 =
     [row ''3dm'' ''x-world/x-3dmf'',
      row ''3dmf'' ''x-world/x-3dmf'',
      row ''a'' ''application/octet-stream'',
      row ''aab'' ''application/x-authorware-bin'',
      row ''aam'' ''application/x-authorware-map'',
      row ''aas'' ''application/x-authorware-seg'',
      row ''abc'' ''text/vnd.abc'',
      row ''acgi'' ''text/html'',
      row ''afl'' ''video/animaflex'',
      row ''ai'' ''application/postscript'',
      row ''aif'' ''audio/aiff'',
      row ''aif'' ''audio/x-aiff'',
      row ''aifc'' ''audio/aiff'',
      row ''aifc'' ''audio/x-aiff'',
      row ''aiff'' ''audio/aiff'',
      row ''aiff'' ''audio/x-aiff'',
      row ''aim'' ''application/x-aim'',
      row ''aip'' ''text/x-audiosoft-intra'',
      row ''ani'' ''application/x-navi-animation'',
      row ''aos'' ''application/x-nokia-9000-communicator-add-on-software'',
      row ''aps'' ''application/mime'',
      row ''arc'' ''application/octet-stream'',
      row ''arj'' ''application/arj'',
      row ''arj'' ''application/octet-stream'',
      row ''art'' ''image/x-jg'',
      row ''asf'' ''video/x-ms-asf'',
      row ''asm'' ''text/x-asm'',
      row ''asp'' ''text/asp'',
      row ''asx'' ''application/x-mplayer2'',
      row ''asx'' ''video/x-ms-asf'',
      row ''asx'' ''video/x-ms-asf-plugin'',
      row ''au'' ''audio/basic'',
      row ''au'' ''audio/x-au'',
      row ''avi'' ''application/x-troff-msvideo'',
      row ''avi'' ''video/avi'',
      row ''avi'' ''video/msvideo'',
      row ''avi'' ''video/x-msvideo'',
      row ''avs'' ''video/avs-video'',
      row ''bcpio'' ''application/x-bcpio'',
      row ''bin'' ''application/mac-binary'',
      row ''bin'' ''application/macbinary'',
      row ''bin'' ''application/octet-stream'',
      row ''bin'' ''application/x-binary'',
      row ''bin'' ''application/x-macbinary'',
      row ''bm'' ''image/bmp'',
      row ''bmp'' ''image/bmp'',
      row ''bmp'' ''image/x-windows-bmp'',
      row ''boo'' ''application/book'',
      row ''book'' ''application/book'',
      row ''boz'' ''application/x-bzip2'',
      row ''bsh'' ''application/x-bsh'',
      row ''bz'' ''application/x-bzip'',
      row ''bz2'' ''application/x-bzip2'',
      row ''c'' ''text/plain'',
      row ''c'' ''text/x-c'',
      row ''c++'' ''text/plain'',
      row ''cat'' ''application/vnd.ms-pki.seccat'',
      row ''cc'' ''text/plain'',
      row ''cc'' ''text/x-c'',
      row ''ccad'' ''application/clariscad'',
      row ''cco'' ''application/x-cocoa'',
      row ''cdf'' ''application/cdf'',
      row ''cdf'' ''application/x-cdf'',
      row ''cdf'' ''application/x-netcdf'']"

definition table_rows_64 :: "MimeTypeTableEntry list" where
  "table_rows_64 =
     [row ''cer'' ''application/pkix-cert'',
      row ''cer'' ''application/x-x509-ca-cert'',
      row ''cha'' ''application/x-chat'',
      row ''chat'' ''application/x-chat'',
      row ''class'' ''application/java'',
      row ''class'' ''application/java-byte-code'',
      row ''class'' ''application/x-java-class'',
      row ''com'' ''application/octet-stream'',
      row ''com'' ''text/plain'',
      row ''conf'' ''text/plain'',
      row ''cpio'' ''application/x-cpio'',
      row ''cpp'' ''text/x-c'',
      row ''cpt'' ''application/mac-compactpro'',
      row ''cpt'' ''application/x-compactpro'',
      row ''cpt'' ''application/x-cpt'',
      row ''crl'' ''application/pkcs-crl'',
      row ''crl'' ''application/pkix-crl'',
      row ''crt'' ''application/pkix-cert'',
      row ''crt'' ''application/x-x509-ca-cert'',
      row ''crt'' ''application/x-x509-user-cert'',
      row ''csh'' ''application/x-csh'',
      row ''csh'' ''text/x-script.csh'',
      row ''css'' ''application/x-pointplus'',
      row ''css'' ''text/css'',
      row ''cxx'' ''text/plain'',
      row ''dcr'' ''application/x-director'',
      row ''deepv'' ''application/x-deepv'',
      row ''def'' ''text/plain'',
      row ''der'' ''application/x-x509-ca-cert'',
      row ''dif'' ''video/x-dv'',
      row ''dir'' ''application/x-director'',
      row ''dl'' ''video/dl'',
      row ''dl'' ''video/x-dl'',
      row ''doc'' ''application/msword'',
      row ''dot'' ''application/msword'',
      row ''dp'' ''application/commonground'',
      row ''drw'' ''application/drafting'',
      row ''dump'' ''application/octet-stream'',
      row ''dv'' ''video/x-dv'',
      row ''dvi'' ''application/x-dvi'',
      row ''dwf'' ''drawing/x-dwf'',
      row ''dwf'' ''model/vnd.dwf'',
      row ''dwg'' ''application/acad'',
      row ''dwg'' ''image/vnd.dwg'',
      row ''dwg'' ''image/x-dwg'',
      row ''dxf'' ''application/dxf'',
      row ''dxf'' ''image/vnd.dwg'',
      row ''dxf'' ''image/x-dwg'',
      row ''dxr'' ''application/x-director'',
      row ''el'' ''text/x-script.elisp'',
      row ''elc'' ''application/x-bytecode.elisp'',
      row ''elc'' ''application/x-elc'',
      row ''env'' ''application/x-envoy'',
      row ''eps'' ''application/postscript'',
      row ''es'' ''application/x-esrehber'',
      row ''etx'' ''text/x-setext'',
      row ''evy'' ''application/envoy'',
      row ''evy'' ''application/x-envoy'',
      row ''exe'' ''application/octet-stream'',
      row ''f'' ''text/plain'',
      row ''f'' ''text/x-fortran'',
      row ''f77'' ''text/x-fortran'',
      row ''f90'' ''text/plain'',
      row ''f90'' ''text/x-fortran'']"

definition table_rows_128 :: "MimeTypeTableEntry list" where
  "table_rows_128 =
     [row ''fdf'' ''application/vnd.fdf'',
      row ''fif'' ''application/fractals'',
      row ''fif'' ''image/fif'',
      row ''fli'' ''video/fli'',
      row ''fli'' ''video/x-fli'',
      row ''flo'' ''image/florian'',
      row ''flx'' ''text/vnd.fmi.flexstor'',
      row ''fmf'' ''video/x-atomic3d-feature'',
      row ''for'' ''text/plain'',
      row ''for'' ''text/x-fortran'',
      row ''fpx'' ''image/vnd.fpx'',
      row ''fpx'' ''image/vnd.net-fpx'',
      row ''frl'' ''application/freeloader'',
      row ''funk'' ''audio/make'',
      row ''g'' ''text/plain'',
      row ''g3'' ''image/g3fax'',
      row ''gif'' ''image/gif'',
      row ''gl'' ''video/gl'',
      row ''gl'' ''video/x-gl'',
      row ''gsd'' ''audio/x-gsm'',
      row ''gsm'' ''audio/x-gsm'',
      row ''gsp'' ''application/x-gsp'',
      row ''gss'' ''application/x-gss'',
      row ''gtar'' ''application/x-gtar'',
      row ''gz'' ''application/x-compressed'',
      row ''gz'' ''application/x-gzip'',
      row ''gzip'' ''application/x-gzip'',
      row ''gzip'' ''multipart/x-gzip'',
      row ''h'' ''text/plain'',
      row ''h'' ''text/x-h'',
      row ''hdf'' ''application/x-hdf'',
      row ''help'' ''application/x-helpfile'',
      row ''hgl'' ''application/vnd.hp-hpgl'',
      row ''hh'' ''text/plain'',
      row ''hh'' ''text/x-h'',
      row ''hlb'' ''text/x-script'',
      row ''hlp'' ''application/hlp'',
      row ''hlp'' ''application/x-helpfile'',
      row ''hlp'' ''application/x-winhelp'',
      row ''hpg'' ''application/vnd.hp-hpgl'',
      row ''hpgl'' ''application/vnd.hp-hpgl'',
      row ''hqx'' ''application/binhex'',
      row ''hqx'' ''application/binhex4'',
      row ''hqx'' ''application/mac-binhex'',
      row ''hqx'' ''application/mac-binhex40'',
      row ''hqx'' ''application/x-binhex40'',
      row ''hqx'' ''application/x-mac-binhex40'',
      row ''hta'' ''application/hta'',
      row ''htc'' ''text/x-component'',
      row ''htm'' ''text/html'',
      row ''html'' ''text/html'',
      row ''htmls'' ''text/html'',
      row ''htt'' ''text/webviewhtml'',
      row ''htx'' ''text/html'',
      row ''ice'' ''x-conference/x-cooltalk'',
      row ''ico'' ''image/x-icon'',
      row ''idc'' ''text/plain'',
      row ''ief'' ''image/ief'',
      row ''iefs'' ''image/ief'',
      row ''iges'' ''application/iges'',
      row ''iges'' ''model/iges'',
      row ''igs'' ''application/iges'',
      row ''igs'' ''model/iges'',
      row ''ima'' ''application/x-ima'']"

definition table_rows_192 :: "MimeTypeTableEntry list" where
  "table_rows_192 =
     [row ''imap'' ''application/x-httpd-imap'',
      row ''inf'' ''application/inf'',
      row ''ins'' ''application/x-internett-signup'',
      row ''ip'' ''application/x-ip2'',
      row ''isu'' ''video/x-isvideo'',
      row ''it'' ''audio/it'',
      row ''iv'' ''application/x-inventor'',
      row ''ivr'' ''i-world/i-vrml'',
      row ''ivy'' ''application/x-livescreen'',
      row ''jam'' ''audio/x-jam'',
      row ''jav'' ''text/plain'',
      row ''jav'' ''text/x-java-source'',
      row ''java'' ''text/plain'',
      row ''java'' ''text/x-java-source'',
      row ''jcm'' ''application/x-java-commerce'',
      row ''jfif'' ''image/jpeg'',
      row ''jfif'' ''image/pjpeg'',
      row ''jpe'' ''image/jpeg'',
      row ''jpe'' ''image/pjpeg'',
      row ''jpeg'' ''image/jpeg'',
      row ''jpeg'' ''image/pjpeg'',
      row ''jpg'' ''image/jpeg'',
      row ''jpg'' ''image/pjpeg'',
      row ''jps'' ''image/x-jps'',
      row ''js'' ''application/x-javascript'',
      row ''jut'' ''image/jutvision'',
      row ''kar'' ''audio/midi'',
      row ''kar'' ''music/x-karaoke'',
      row ''ksh'' ''application/x-ksh'',
      row ''ksh'' ''text/x-script.ksh'',
      row ''la'' ''audio/nspaudio'',
      row ''la'' ''audio/x-nspaudio'',
      row ''lam'' ''audio/x-liveaudio'',
      row ''latex'' ''application/x-latex'',
      row ''lha'' ''application/lha'',
      row ''lha'' ''application/octet-stream'',
      row ''lha'' ''application/x-lha'',
      row ''lhx'' ''application/octet-stream'',
      row ''list'' ''text/plain'',
      row ''lma'' ''audio/nspaudio'',
      row ''lma'' ''audio/x-nspaudio'',
      row ''log'' ''text/plain'',
      row ''lsp'' ''application/x-lisp'',
      row ''lsp'' ''text/x-script.lisp'',
      row ''lst'' ''text/plain'',
      row ''lsx'' ''text/x-la-asf'',
      row ''ltx'' ''application/x-latex'',
      row ''lzh'' ''application/octet-stream'',
      row ''lzh'' ''application/x-lzh'',
      row ''lzx'' ''application/lzx'',
      row ''lzx'' ''application/octet-stream'',
      row ''lzx'' ''application/x-lzx'',
      row ''m'' ''text/plain'',
      row ''m'' ''text/x-m'',
      row ''m1v'' ''video/mpeg'',
      row ''m2a'' ''audio/mpeg'',
      row ''m2v'' ''video/mpeg'',
      row ''m3u'' ''audio/x-mpequrl'',
      row ''man'' ''application/x-troff-man'',
      row ''map'' ''application/x-navimap'',
      row ''mar'' ''text/plain'',
      row ''mbd'' ''application/mbedlet'',
      row ''mc$'' ''application/x-magic-cap-package-1.0'',
      row ''mcd'' ''application/mcad'']"

definition table_rows_256 :: "MimeTypeTableEntry list" where
  "table_rows_256 =
     [row ''mcd'' ''application/x-mathcad'',
      row ''mcf'' ''image/vasa'',
      row ''mcf'' ''text/mcf'',
      row ''mcp'' ''application/netmc'',
      row ''me'' ''application/x-troff-me'',
      row ''mht'' ''message/rfc822'',
      row ''mhtml'' ''message/rfc822'',
      row ''mid'' ''application/x-midi'',
      row ''mid'' ''audio/midi'',
      row ''mid'' ''audio/x-mid'',
      row ''mid'' ''audio/x-midi'',
      row ''mid'' ''music/crescendo'',
      row ''mid'' ''x-music/x-midi'',
      row ''midi'' ''application/x-midi'',
      row ''midi'' ''audio/midi'',
      row ''midi'' ''audio/x-mid'',
      row ''midi'' ''audio/x-midi'',
      row ''midi'' ''music/crescendo'',
      row ''midi'' ''x-music/x-midi'',
      row ''mif'' ''application/x-frame'',
      row ''mif'' ''application/x-mif'',
      row ''mime'' ''message/rfc822'',
      row ''mime'' ''www/mime'',
      row ''mjf'' ''audio/x-vnd.audioexplosion.mjuicemediafile'',
      row ''mjpg'' ''video/x-motion-jpeg'',
      row ''mm'' ''application/base64'',
      row ''mm'' ''application/x-meme'',
      row ''mme'' ''application/base64'',
      row ''mod'' ''audio/mod'',
      row ''mod'' ''audio/x-mod'',
      row ''moov'' ''video/quicktime'',
      row ''mov'' ''video/quicktime'',
      row ''movie'' ''video/x-sgi-movie'',
      row ''mp2'' ''audio/mpeg'',
      row ''mp2'' ''audio/x-mpeg'',
      row ''mp2'' ''video/mpeg'',
      row ''mp2'' ''video/x-mpeg'',
      row ''mp2'' ''video/x-mpeq2a'',
      row ''mp3'' ''audio/mpeg'',
      row ''mp3'' ''audio/mpeg3'',
      row ''mp3'' ''audio/x-mpeg-3'',
      row ''mp3'' ''video/mpeg'',
      row ''mp3'' ''video/x-mpeg'',
      row ''mpa'' ''audio/mpeg'',
      row ''mpa'' ''video/mpeg'',
      row ''mpc'' ''application/x-project'',
      row ''mpe'' ''video/mpeg'',
      row ''mpeg'' ''video/mpeg'',
      row ''mpg'' ''audio/mpeg'',
      row ''mpg'' ''video/mpeg'',
      row ''mpga'' ''audio/mpeg'',
      row ''mpp'' ''application/vnd.ms-project'',
      row ''mpt'' ''application/x-project'',
      row ''mpv'' ''application/x-project'',
      row ''mpx'' ''application/x-project'',
      row ''mrc'' ''application/marc'',
      row ''ms'' ''application/x-troff-ms'',
      row ''mv'' ''video/x-sgi-movie'',
      row ''my'' ''audio/make'',
      row ''mzz'' ''application/x-vnd.audioexplosion.mzz'',
      row ''nap'' ''image/naplps'',
      row ''naplps'' ''image/naplps'',
      row ''nc'' ''application/x-netcdf'',
      row ''ncm'' ''application/vnd.nokia.configuration-message'']"

definition table_rows_320 :: "MimeTypeTableEntry list" where
  "table_rows_320 =
     [row ''nif'' ''image/x-niff'',
      row ''niff'' ''image/x-niff'',
      row ''nix'' ''application/x-mix-transfer'',
      row ''nsc'' ''application/x-conference'',
      row ''nvd'' ''application/x-navidoc'',
      row ''o'' ''application/octet-stream'',
      row ''oda'' ''application/oda'',
      row ''omc'' ''application/x-omc'',
      row ''omcd'' ''application/x-omcdatamaker'',
      row ''omcr'' ''application/x-omcregerator'',
      row ''p'' ''text/x-pascal'',
      row ''p10'' ''application/pkcs10'',
      row ''p10'' ''application/x-pkcs10'',
      row ''p12'' ''application/pkcs-12'',
      row ''p12'' ''application/x-pkcs12'',
      row ''p7a'' ''application/x-pkcs7-signature'',
      row ''p7c'' ''application/pkcs7-mime'',
      row ''p7c'' ''application/x-pkcs7-mime'',
      row ''p7m'' ''application/pkcs7-mime'',
      row ''p7m'' ''application/x-pkcs7-mime'',
      row ''p7r'' ''application/x-pkcs7-certreqresp'',
      row ''p7s'' ''application/pkcs7-signature'',
      row ''part'' ''application/pro_eng'',
      row ''pas'' ''text/pascal'',
      row ''pbm'' ''image/x-portable-bitmap'',
      row ''pcl'' ''application/vnd.hp-pcl'',
      row ''pcl'' ''application/x-pcl'',
      row ''pct'' ''image/x-pict'',
      row ''pcx'' ''image/x-pcx'',
      row ''pdb'' ''chemical/x-pdb'',
      row ''pdf'' ''application/pdf'',
      row ''pfunk'' ''audio/make'',
      row ''pfunk'' ''audio/make.my.funk'',
      row ''pgm'' ''image/x-portable-graymap'',
      row ''pgm'' ''image/x-portable-greymap'',
      row ''pic'' ''image/pict'',
      row ''pict'' ''image/pict'',
      row ''pkg'' ''application/x-newton-compatible-pkg'',
      row ''pko'' ''application/vnd.ms-pki.pko'',
      row ''pl'' ''text/plain'',
      row ''pl'' ''text/x-script.perl'',
      row ''plx'' ''application/x-pixclscript'',
      row ''pm'' ''image/x-xpixmap'',
      row ''pm'' ''text/x-script.perl-module'',
      row ''pm4'' ''application/x-pagemaker'',
      row ''pm5'' ''application/x-pagemaker'',
      row ''png'' ''image/png'',
      row ''pnm'' ''application/x-portable-anymap'',
      row ''pnm'' ''image/x-portable-anymap'',
      row ''pot'' ''application/mspowerpoint'',
      row ''pot'' ''application/vnd.ms-powerpoint'',
      row ''pov'' ''model/x-pov'',
      row ''ppa'' ''application/vnd.ms-powerpoint'',
      row ''ppm'' ''image/x-portable-pixmap'',
      row ''pps'' ''application/mspowerpoint'',
      row ''pps'' ''application/vnd.ms-powerpoint'',
      row ''ppt'' ''application/mspowerpoint'',
      row ''ppt'' ''application/powerpoint'',
      row ''ppt'' ''application/vnd.ms-powerpoint'',
      row ''ppt'' ''application/x-mspowerpoint'',
      row ''ppz'' ''application/mspowerpoint'',
      row ''pre'' ''application/x-freelance'',
      row ''prt'' ''application/pro_eng'',
      row ''ps'' ''application/postscript'']"

definition table_rows_384 :: "MimeTypeTableEntry list" where
  "table_rows_384 =
     [row ''psd'' ''application/octet-stream'',
      row ''pvu'' ''paleovu/x-pv'',
      row ''pwz'' ''application/vnd.ms-powerpoint'',
      row ''py'' ''text/x-script.phyton'',
      row ''pyc'' ''application/x-bytecode.python'',
      row ''qcp'' ''audio/vnd.qcelp'',
      row ''qd3'' ''x-world/x-3dmf'',
      row ''qd3d'' ''x-world/x-3dmf'',
      row ''qif'' ''image/x-quicktime'',
      row ''qt'' ''video/quicktime'',
      row ''qtc'' ''video/x-qtc'',
      row ''qti'' ''image/x-quicktime'',
      row ''qtif'' ''image/x-quicktime'',
      row ''ra'' ''audio/x-pn-realaudio'',
      row ''ra'' ''audio/x-pn-realaudio-plugin'',
      row ''ra'' ''audio/x-realaudio'',
      row ''ram'' ''audio/x-pn-realaudio'',
      row ''ras'' ''application/x-cmu-raster'',
      row ''ras'' ''image/cmu-raster'',
      row ''ras'' ''image/x-cmu-raster'',
      row ''rast'' ''image/cmu-raster'',
      row ''rexx'' ''text/x-script.rexx'',
      row ''rf'' ''image/vnd.rn-realflash'',
      row ''rgb'' ''image/x-rgb'',
      row ''rm'' ''application/vnd.rn-realmedia'',
      row ''rm'' ''audio/x-pn-realaudio'',
      row ''rmi'' ''audio/mid'',
      row ''rmm'' ''audio/x-pn-realaudio'',
      row ''rmp'' ''audio/x-pn-realaudio'',
      row ''rmp'' ''audio/x-pn-realaudio-plugin'',
      row ''rng'' ''application/ringing-tones'',
      row ''rng'' ''application/vnd.nokia.ringing-tone'',
      row ''rnx'' ''application/vnd.rn-realplayer'',
      row ''roff'' ''application/x-troff'',
      row ''rp'' ''image/vnd.rn-realpix'',
      row ''rpm'' ''audio/x-pn-realaudio-plugin'',
      row ''rt'' ''text/richtext'',
      row ''rt'' ''text/vnd.rn-realtext'',
      row ''rtf'' ''application/rtf'',
      row ''rtf'' ''application/x-rtf'',
      row ''rtf'' ''text/richtext'',
      row ''rtx'' ''application/rtf'',
      row ''rtx'' ''text/richtext'',
      row ''rv'' ''video/vnd.rn-realvideo'',
      row ''s'' ''text/x-asm'',
      row ''s3m'' ''audio/s3m'',
      row ''saveme'' ''application/octet-stream'',
      row ''sbk'' ''application/x-tbook'',
      row ''scm'' ''application/x-lotusscreencam'',
      row ''scm'' ''text/x-script.guile'',
      row ''scm'' ''text/x-script.scheme'',
      row ''scm'' ''video/x-scm'',
      row ''sdml'' ''text/plain'',
      row ''sdp'' ''application/sdp'',
      row ''sdp'' ''application/x-sdp'',
      row ''sdr'' ''application/sounder'',
      row ''sea'' ''application/sea'',
      row ''sea'' ''application/x-sea'',
      row ''set'' ''application/set'',
      row ''sgm'' ''text/sgml'',
      row ''sgm'' ''text/x-sgml'',
      row ''sgml'' ''text/sgml'',
      row ''sgml'' ''text/x-sgml'',
      row ''sh'' ''application/x-bsh'']"

definition table_rows_448 :: "MimeTypeTableEntry list" where
  "table_rows_448 =
     [row ''sh'' ''application/x-sh'',
      row ''sh'' ''application/x-shar'',
      row ''sh'' ''text/x-script.sh'',
      row ''shar'' ''application/x-bsh'',
      row ''shar'' ''application/x-shar'',
      row ''shtml'' ''text/html'',
      row ''shtml'' ''text/x-server-parsed-html'',
      row ''sid'' ''audio/x-psid'',
      row ''sit'' ''application/x-sit'',
      row ''sit'' ''application/x-stuffit'',
      row ''skd'' ''application/x-koan'',
      row ''skm'' ''application/x-koan'',
      row ''skp'' ''application/x-koan'',
      row ''skt'' ''application/x-koan'',
      row ''sl'' ''application/x-seelogo'',
      row ''smi'' ''application/smil'',
      row ''smil'' ''application/smil'',
      row ''snd'' ''audio/basic'',
      row ''snd'' ''audio/x-adpcm'',
      row ''sol'' ''application/solids'',
      row ''spc'' ''application/x-pkcs7-certificates'',
      row ''spc'' ''text/x-speech'',
      row ''spl'' ''application/futuresplash'',
      row ''spr'' ''application/x-sprite'',
      row ''sprite'' ''application/x-sprite'',
      row ''src'' ''application/x-wais-source'',
      row ''ssi'' ''text/x-server-parsed-html'',
      row ''ssm'' ''application/streamingmedia'',
      row ''sst'' ''application/vnd.ms-pki.certstore'',
      row ''step'' ''application/step'',
      row ''stl'' ''application/sla'',
      row ''stl'' ''application/vnd.ms-pki.stl'',
      row ''stl'' ''application/x-navistyle'',
      row ''stp'' ''application/step'',
      row ''sv4cpio,'' ''application/x-sv4cpio'',
      row ''sv4crc'' ''application/x-sv4crc'',
      row ''svf'' ''image/vnd.dwg'',
      row ''svf'' ''image/x-dwg'',
      row ''svr'' ''application/x-world'',
      row ''svr'' ''x-world/x-svr'',
      row ''swf'' ''application/x-shockwave-flash'',
      row ''t'' ''application/x-troff'',
      row ''talk'' ''text/x-speech'',
      row ''tar'' ''application/x-tar'',
      row ''tbk'' ''application/toolbook'',
      row ''tbk'' ''application/x-tbook'',
      row ''tcl'' ''application/x-tcl'',
      row ''tcl'' ''text/x-script.tcl'',
      row ''tcsh'' ''text/x-script.tcsh'',
      row ''tex'' ''application/x-tex'',
      row ''texi'' ''application/x-texinfo'',
      row ''texinfo,'' ''application/x-texinfo'',
      row ''text'' ''application/plain'',
      row ''text'' ''text/plain'',
      row ''tgz'' ''application/gnutar'',
      row ''tgz'' ''application/x-compressed'',
      row ''tif'' ''image/tiff'',
      row ''tif'' ''image/x-tiff'',
      row ''tiff'' ''image/tiff'',
      row ''tiff'' ''image/x-tiff'',
      row ''tr'' ''application/x-troff'',
      row ''tsi'' ''audio/tsp-audio'',
      row ''tsp'' ''application/dsptype'',
      row ''tsp'' ''audio/tsplayer'']"

definition table_rows_512 :: "MimeTypeTableEntry list" where
  "table_rows_512 =
     [row ''tsv'' ''text/tab-separated-values'',
      row ''turbot'' ''image/florian'',
      row ''txt'' ''text/plain'',
      row ''uil'' ''text/x-uil'',
      row ''uni'' ''text/uri-list'',
      row ''unis'' ''text/uri-list'',
      row ''unv'' ''application/i-deas'',
      row ''uri'' ''text/uri-list'',
      row ''uris'' ''text/uri-list'',
      row ''ustar'' ''application/x-ustar'',
      row ''ustar'' ''multipart/x-ustar'',
      row ''uu'' ''application/octet-stream'',
      row ''uu'' ''text/x-uuencode'',
      row ''uue'' ''text/x-uuencode'',
      row ''vcd'' ''application/x-cdlink'',
      row ''vcs'' ''text/x-vcalendar'',
      row ''vda'' ''application/vda'',
      row ''vdo'' ''video/vdo'',
      row ''vew'' ''application/groupwise'',
      row ''viv'' ''video/vivo'',
      row ''viv'' ''video/vnd.vivo'',
      row ''vivo'' ''video/vivo'',
      row ''vivo'' ''video/vnd.vivo'',
      row ''vmd'' ''application/vocaltec-media-desc'',
      row ''vmf'' ''application/vocaltec-media-file'',
      row ''voc'' ''audio/voc'',
      row ''voc'' ''audio/x-voc'',
      row ''vos'' ''video/vosaic'',
      row ''vox'' ''audio/voxware'',
      row ''vqe'' ''audio/x-twinvq-plugin'',
      row ''vqf'' ''audio/x-twinvq'',
      row ''vql'' ''audio/x-twinvq-plugin'',
      row ''vrml'' ''application/x-vrml'',
      row ''vrml'' ''model/vrml'',
      row ''vrml'' ''x-world/x-vrml'',
      row ''vrt'' ''x-world/x-vrt'',
      row ''vsd'' ''application/x-visio'',
      row ''vst'' ''application/x-visio'',
      row ''vsw'' ''application/x-visio'',
      row ''w60'' ''application/wordperfect6.0'',
      row ''w61'' ''application/wordperfect6.1'',
      row ''w6w'' ''application/msword'',
      row ''wav'' ''audio/wav'',
      row ''wav'' ''audio/x-wav'',
      row ''wb1'' ''application/x-qpro'',
      row ''wbmp'' ''image/vnd.wap.wbmp'',
      row ''web'' ''application/vnd.xara'',
      row ''wiz'' ''application/msword'',
      row ''wk1'' ''application/x-123'',
      row ''wmf'' ''windows/metafile'',
      row ''wml'' ''text/vnd.wap.wml'',
      row ''wmlc'' ''application/vnd.wap.wmlc'',
      row ''wmls'' ''text/vnd.wap.wmlscript'',
      row ''wmlsc'' ''application/vnd.wap.wmlscriptc'',
      row ''word'' ''application/msword'',
      row ''wp'' ''application/wordperfect'',
      row ''wp5'' ''application/wordperfect'',
      row ''wp5'' ''application/wordperfect6.0'',
      row ''wp6'' ''application/wordperfect'',
      row ''wpd'' ''application/wordperfect'',
      row ''wpd'' ''application/x-wpwin'',
      row ''wq1'' ''application/x-lotus'',
      row ''wri'' ''application/mswrite'',
      row ''wri'' ''application/x-wri'']"

definition table_rows_576 :: "MimeTypeTableEntry list" where
  "table_rows_576 =
     [row ''wrl'' ''application/x-world'',
      row ''wrl'' ''model/vrml'',
      row ''wrl'' ''x-world/x-vrml'',
      row ''wrz'' ''model/vrml'',
      row ''wrz'' ''x-world/x-vrml'',
      row ''wsc'' ''text/scriplet'',
      row ''wsrc'' ''application/x-wais-source'',
      row ''wtk'' ''application/x-wintalk'',
      row ''xbm'' ''image/x-xbitmap'',
      row ''xbm'' ''image/x-xbm'',
      row ''xbm'' ''image/xbm'',
      row ''xdr'' ''video/x-amt-demorun'',
      row ''xgz'' ''xgl/drawing'',
      row ''xif'' ''image/vnd.xiff'',
      row ''xl'' ''application/excel'',
      row ''xla'' ''application/excel'',
      row ''xla'' ''application/x-excel'',
      row ''xla'' ''application/x-msexcel'',
      row ''xlb'' ''application/excel'',
      row ''xlb'' ''application/vnd.ms-excel'',
      row ''xlb'' ''application/x-excel'',
      row ''xlc'' ''application/excel'',
      row ''xlc'' ''application/vnd.ms-excel'',
      row ''xlc'' ''application/x-excel'',
      row ''xld'' ''application/excel'',
      row ''xld'' ''application/x-excel'',
      row ''xlk'' ''application/excel'',
      row ''xlk'' ''application/x-excel'',
      row ''xll'' ''application/excel'',
      row ''xll'' ''application/vnd.ms-excel'',
      row ''xll'' ''application/x-excel'',
      row ''xlm'' ''application/excel'',
      row ''xlm'' ''application/vnd.ms-excel'',
      row ''xlm'' ''application/x-excel'',
      row ''xls'' ''application/excel'',
      row ''xls'' ''application/vnd.ms-excel'',
      row ''xls'' ''application/x-excel'',
      row ''xls'' ''application/x-msexcel'',
      row ''xlt'' ''application/excel'',
      row ''xlt'' ''application/x-excel'',
      row ''xlv'' ''application/excel'',
      row ''xlv'' ''application/x-excel'',
      row ''xlw'' ''application/excel'',
      row ''xlw'' ''application/vnd.ms-excel'',
      row ''xlw'' ''application/x-excel'',
      row ''xlw'' ''application/x-msexcel'',
      row ''xm'' ''audio/xm'',
      row ''xml'' ''application/xml'',
      row ''xml'' ''text/xml'',
      row ''xmz'' ''xgl/movie'',
      row ''xpix'' ''application/x-vnd.ls-xpix'',
      row ''xpm'' ''image/x-xpixmap'',
      row ''xpm'' ''image/xpm'',
      row ''x-png'' ''image/png'',
      row ''xsr'' ''video/x-amt-showrun'',
      row ''xwd'' ''image/x-xwd'',
      row ''xwd'' ''image/x-xwindowdump'',
      row ''xyz'' ''chemical/x-pdb'',
      row ''z'' ''application/x-compress'',
      row ''z'' ''application/x-compressed'',
      row ''zip'' ''application/x-compressed'',
      row ''zip'' ''application/x-zip-compressed'',
      row ''zip'' ''application/zip'',
      row ''zip'' ''multipart/x-zip'']"

definition table_rows_640 :: "MimeTypeTableEntry list" where
  "table_rows_640 =
     [row ''zoo'' ''application/octet-stream'']"

definition table :: "MimeTypeTableEntry list" where
  "table = table_rows_0 @ table_rows_64 @ table_rows_128 @ table_rows_192 @ table_rows_256 @ table_rows_320 @ table_rows_384 @ table_rows_448 @ table_rows_512 @ table_rows_576 @ table_rows_640"

text \<open>
  \<^verbatim>\<open>getMimeTypesForFileExtension\<close>: the range-for over the table, with
  \<^verbatim>\<open>result.add\<close> appending to the \<^verbatim>\<open>StringArray\<close>; the comparison of a \<^verbatim>\<open>String\<close>
  with a \<^verbatim>\<open>const char*\<close> is equality of the character sequences.
\<close>

fun mime_scan :: "MimeTypeTableEntry list \<Rightarrow> string \<Rightarrow> string list \<Rightarrow> string list" where
  "mime_scan [] ext result = result"
| "mime_scan (entry # rest) ext result =
     mime_scan rest ext (if ext = fileExtension entry then result @ [mimeType entry] else result)"

definition getMimeTypesForFileExtension :: "string \<Rightarrow> string list" where
  "getMimeTypesForFileExtension ext = mime_scan table ext []"

section \<open>Paths and rings\<close>

lemma path_append: "path f p (xs @ y # ys) q \<longleftrightarrow> path f p xs y \<and> path f y ys q"
  by (induction xs arbitrary: p) auto

lemma path_cong: "(\<And>x. x \<in> set (p # xs) \<Longrightarrow> g x = f x) \<Longrightarrow> path g p xs q = path f p xs q"
  by (induction xs arbitrary: p) auto

lemma path_hd: "path f p xs q \<Longrightarrow> f p = hd (xs @ [q])"
  by (cases xs) auto

lemma path_split: "path f p (xs @ ys) q \<Longrightarrow> f (last (p # xs)) = hd (ys @ [q])"
  by (induction xs arbitrary: p) (auto simp: path_hd)

lemma path_link:
  assumes "path f p (xs @ ys) q" and "distinct (p # xs @ ys)"
    and "g n = hd (ys @ [q])" and "g (last (p # xs)) = n"
    and "\<And>x. x \<in> set (p # xs @ ys) \<Longrightarrow> x \<noteq> last (p # xs) \<Longrightarrow> g x = f x"
  shows "path g p (xs @ n # ys) q"
  using assms
proof (induction xs arbitrary: p)
  case Nil
  from Nil.prems(4) have gp: "g p = n" by simp
  have same: "g x = f x" if "x \<in> set ys" for x
  proof (rule Nil.prems(5))
    show "x \<in> set (p # [] @ ys)" using that by simp
    show "x \<noteq> last [p]" using that Nil.prems(2) by auto
  qed
  have "path g n ys q"
  proof (cases ys)
    case Nil
    with Nil.prems(1,3) show ?thesis by simp
  next
    case (Cons z zs)
    have "path g z zs q = path f z zs q"
      by (rule path_cong) (simp add: same Cons)
    with Cons Nil.prems(1,3) show ?thesis by simp
  qed
  with gp show ?case by simp
next
  case (Cons x xs)
  have l: "last (p # x # xs) = last (x # xs)" by simp
  have "last (x # xs) \<in> set (x # xs)" by (rule last_in_set) simp
  with Cons.prems(2) have pl: "p \<noteq> last (x # xs)" by auto
  have "path g x (xs @ n # ys) q"
  proof (rule Cons.IH)
    show "path f x (xs @ ys) q" using Cons.prems(1) by simp
    show "distinct (x # xs @ ys)" using Cons.prems(2) by simp
    show "g n = hd (ys @ [q])" by (rule Cons.prems(3))
    show "g (last (x # xs)) = n" using Cons.prems(4) unfolding l .
    show "g y = f y" if "y \<in> set (x # xs @ ys)" "y \<noteq> last (x # xs)" for y
    proof (rule Cons.prems(5))
      show "y \<in> set (p # (x # xs) @ ys)" using that(1) by simp
      show "y \<noteq> last (p # x # xs)" unfolding l by (rule that(2))
    qed
  qed
  moreover have "g p = f p"
  proof (rule Cons.prems(5))
    show "p \<in> set (p # (x # xs) @ ys)" by simp
    show "p \<noteq> last (p # x # xs)" unfolding l by (rule pl)
  qed
  with Cons.prems(1) have "g p = x" by simp
  ultimately show ?case by simp
qed

lemma path_unlink:
  assumes "path f p (xs @ y # ys) q" and "distinct (p # xs @ y # ys)"
    and "g (last (p # xs)) = f y"
    and "\<And>x. x \<in> set (p # xs @ ys) \<Longrightarrow> x \<noteq> last (p # xs) \<Longrightarrow> g x = f x"
  shows "path g p (xs @ ys) q"
  using assms
proof (induction xs arbitrary: p)
  case Nil
  from Nil.prems(3) have gp: "g p = f y" by simp
  have same: "g x = f x" if "x \<in> set ys" for x
  proof (rule Nil.prems(4))
    show "x \<in> set (p # [] @ ys)" using that by simp
    show "x \<noteq> last [p]" using that Nil.prems(2) by auto
  qed
  show ?case
  proof (cases ys)
    case Nil
    with Nil.prems(1) gp show ?thesis by simp
  next
    case (Cons z zs)
    have "path g z zs q = path f z zs q"
      by (rule path_cong) (simp add: same Cons)
    with Cons Nil.prems(1) gp show ?thesis by simp
  qed
next
  case (Cons x xs)
  have l: "last (p # x # xs) = last (x # xs)" by simp
  have "last (x # xs) \<in> set (x # xs)" by (rule last_in_set) simp
  with Cons.prems(2) have pl: "p \<noteq> last (x # xs)" by auto
  have "path g x (xs @ ys) q"
  proof (rule Cons.IH)
    show "path f x (xs @ y # ys) q" using Cons.prems(1) by simp
    show "distinct (x # xs @ y # ys)" using Cons.prems(2) by simp
    show "g (last (x # xs)) = f y" using Cons.prems(3) unfolding l .
    show "g z = f z" if "z \<in> set (x # xs @ ys)" "z \<noteq> last (x # xs)" for z
    proof (rule Cons.prems(4))
      show "z \<in> set (p # (x # xs) @ ys)" using that(1) by simp
      show "z \<noteq> last (p # x # xs)" unfolding l by (rule that(2))
    qed
  qed
  moreover have "g p = f p"
  proof (rule Cons.prems(4))
    show "p \<in> set (p # (x # xs) @ ys)" by simp
    show "p \<noteq> last (p # x # xs)" unfolding l by (rule pl)
  qed
  with Cons.prems(1) have "g p = x" by simp
  ultimately show ?case by simp
qed

lemma word64_distinct_length:
  "distinct (xs :: 64 word list) \<Longrightarrow> 0 \<notin> set xs \<Longrightarrow> length xs < 2 ^ 64"
proof -
  assume d: "distinct xs" and z: "0 \<notin> set xs"
  have "card (set xs) \<le> card (UNIV - {0 :: 64 word})"
    by (rule card_mono) (use z in auto)
  also have "\<dots> = 2 ^ 64 - 1" by (simp add: card_Diff_singleton card_word)
  finally show ?thesis using d by (simp add: distinct_card)
qed


lemma last_Cons_rev: "last (h # rev xs) = hd (xs @ [h])"
  by (cases xs) simp_all

lemma hd_rev_snoc: "hd (rev xs @ [h]) = last (h # xs)"
  by (cases xs rule: rev_cases) simp_all

lemma ring_cong:
  assumes "\<And>x. x \<in> set (h # xs) \<Longrightarrow> nxt w' x = nxt w x"
    and "\<And>x. x \<in> set (h # xs) \<Longrightarrow> prv w' x = prv w x"
  shows "ring w' h xs = ring w h xs"
proof -
  have "path (nxt w') h xs h = path (nxt w) h xs h"
    by (rule path_cong) (rule assms(1))
  moreover have "path (prv w') h (rev xs) h = path (prv w) h (rev xs) h"
    by (rule path_cong) (use assms(2) in simp)
  ultimately show ?thesis by (simp add: ring_def)
qed

lemma ring_neighbours:
  assumes "ring w h (pre @ post)"
  shows "nxt w (last (h # pre)) = hd (post @ [h])"
    and "prv w (hd (post @ [h])) = last (h # pre)"
proof -
  from assms have f: "path (nxt w) h (pre @ post) h"
    and b: "path (prv w) h (rev post @ rev pre) h"
    by (simp_all add: ring_def)
  from path_split [OF f] show "nxt w (last (h # pre)) = hd (post @ [h])" .
  from path_split [OF b] show "prv w (hd (post @ [h])) = last (h # pre)"
    by (simp only: last_Cons_rev hd_rev_snoc)
qed

lemma ring_empty: "ring (INIT_LIST_HEAD h w) h []"
  by (simp add: ring_def INIT_LIST_HEAD_def)

lemma path_link':
  assumes "path f p (xs @ ys) q" and "distinct (p # xs @ ys)"
    and "a = last (p # xs)" and "b = hd (ys @ [q])"
    and "g n = b" and "g a = n"
    and "\<And>x. x \<in> set (p # xs @ ys) \<Longrightarrow> x \<noteq> a \<Longrightarrow> g x = f x"
  shows "path g p (xs @ n # ys) q"
  by (rule path_link [OF assms(1,2)]) (use assms(3-) in simp_all)

lemma path_unlink':
  assumes "path f p (xs @ y # ys) q" and "distinct (p # xs @ y # ys)"
    and "a = last (p # xs)"
    and "g a = f y"
    and "\<And>x. x \<in> set (p # xs @ ys) \<Longrightarrow> x \<noteq> a \<Longrightarrow> g x = f x"
  shows "path g p (xs @ ys) q"
  by (rule path_unlink [OF assms(1,2)]) (use assms(3-) in simp_all)

lemma ring_link:
  assumes r: "ring w h (pre @ post)" and n: "n \<notin> set (h # pre @ post)"
  shows "ring (list_add_between n (last (h # pre)) (hd (post @ [h])) w) h (pre @ n # post)"
proof -
  define a where "a = last (h # pre)"
  define b where "b = hd (post @ [h])"
  define w' where "w' = list_add_between n a b w"
  from r have f: "path (nxt w) h (pre @ post) h"
    and p: "path (prv w) h (rev post @ rev pre) h"
    and d: "distinct (h # pre @ post)"
    by (simp_all add: ring_def)
  have "a \<in> set (h # pre)" unfolding a_def by (rule last_in_set) simp
  moreover have "b \<in> set (post @ [h])" unfolding b_def by (rule hd_in_set) simp
  ultimately have an: "a \<noteq> n" and bn: "b \<noteq> n" using n by auto
  have nxt': "nxt w' = (nxt w)(n := b, a := n)"
    and prv': "prv w' = (prv w)(b := n, n := a)"
    by (simp_all add: w'_def list_add_between_def)
  have "path (nxt w') h (pre @ n # post) h"
    by (rule path_link' [OF f d a_def b_def]) (use an n in \<open>auto simp: nxt'\<close>)
  moreover have d': "distinct (h # rev post @ rev pre)" using d by auto
  have b': "b = last (h # rev post)" and a': "a = hd (rev pre @ [h])"
    by (simp_all only: a_def b_def last_Cons_rev hd_rev_snoc)
  have "path (prv w') h (rev post @ n # rev pre) h"
    by (rule path_link' [OF p d' b' a']) (use bn n in \<open>auto simp: prv'\<close>)
  ultimately have "ring w' h (pre @ n # post)" using d n by (auto simp: ring_def)
  then show ?thesis by (simp only: w'_def a_def b_def)
qed

lemma ring_unlink:
  assumes r: "ring w h (pre @ y # post)"
  shows "ring (list_del y w) h (pre @ post)"
proof -
  define a where "a = last (h # pre)"
  define b where "b = hd (post @ [h])"
  from r have f: "path (nxt w) h (pre @ y # post) h"
    and p: "path (prv w) h (rev post @ y # rev pre) h"
    and d: "distinct (h # pre @ y # post)"
    by (simp_all add: ring_def)
  from ring_neighbours [OF r] have py: "prv w y = a" by (simp add: a_def)
  from r have "ring w h ((pre @ [y]) @ post)" by simp
  from ring_neighbours [OF this] have ny: "nxt w y = b" by (simp add: b_def)
  have "a \<in> set (h # pre)" unfolding a_def by (rule last_in_set) simp
  moreover have "b \<in> set (post @ [h])" unfolding b_def by (rule hd_in_set) simp
  ultimately have ay: "a \<noteq> y" and yb: "b \<noteq> y" using d by auto
  have nxt': "nxt (list_del y w) = (nxt w)(a := b, y := LIST_POISON1)"
    and prv': "prv (list_del y w) = (prv w)(b := a, y := LIST_POISON2)"
    by (simp_all add: list_del_def list_del_between_def Let_def py ny)
  have "path (nxt (list_del y w)) h (pre @ post) h"
    by (rule path_unlink' [OF f d a_def]) (use d ay in \<open>auto simp: nxt' ny\<close>)
  moreover have d': "distinct (h # rev post @ y # rev pre)" using d by auto
  have b': "b = last (h # rev post)"
    by (simp only: b_def last_Cons_rev)
  have "path (prv (list_del y w)) h (rev post @ rev pre) h"
    by (rule path_unlink' [OF p d' b']) (use d yb in \<open>auto simp: prv' py\<close>)
  ultimately show ?thesis using d by (simp add: ring_def)
qed


lemma val_list_del [simp]: "val (list_del y w) = val w"
  and allocated_list_del [simp]: "allocated (list_del y w) = allocated w"
  and constructed_list_del [simp]: "constructed (list_del y w) = constructed w"
  by (simp_all add: list_del_def list_del_between_def Let_def)

lemma val_release [simp]: "val (release l y w) = val w"
  and nxt_release [simp]: "nxt (release l y w) = nxt w"
  and prv_release [simp]: "prv (release l y w) = prv w"
  and allocated_release: "allocated (release l y w) = (if y = 0 then allocated w else allocated w - {y})"
  and constructed_release:
    "constructed (release l y w) = (if fNeedsCopyCtr l then constructed w - {y} else constructed w)"
  by (simp_all add: release_def priv_deallocate_def destroy_def)

lemma wellformed_length:
  assumes "wellformed w l xs" shows "length xs < 2 ^ 64"
proof -
  from assms have "distinct xs" and "0 \<notin> set xs"
    by (auto simp: wellformed_def ring_def list_all_iff)
  then show ?thesis by (rule word64_distinct_length)
qed

lemma wellformed_new_list: "wellformed (fst (new_list q c rv w)) (snd (new_list q c rv w)) []"
  by (simp add: new_list_def priv_init_def wellformed_def ring_empty)


lemma count_incr:
  assumes "unat (c :: 64 word) = length xs" and "Suc (length xs) < 2 ^ 64"
  shows "unat (c + 1) = Suc (length xs)"
proof -
  have "unat c + unat (1 :: 64 word) < 2 ^ LENGTH(64)" using assms by simp
  then have "unat (c + 1) = unat c + unat (1 :: 64 word)" by (simp only: unat_add_lem)
  with assms show ?thesis by simp
qed

lemma count_decr:
  assumes "unat (c :: 64 word) = Suc n"
  shows "unat (c - 1) = n"
proof -
  from assms have "c \<noteq> 0" by auto
  then have "unat (c - 1) = unat c - 1" by (rule unat_minus_one)
  with assms show ?thesis by simp
qed

text \<open>the world after a successful priv_createData still holds the ring\<close>

lemma wellformed_link:
  assumes wf: "wellformed w l (pre @ post)"
    and n: "n \<noteq> 0" "n \<notin> allocated w" "n \<noteq> fQueue l"
    and w1: "\<And>x. x \<noteq> n \<Longrightarrow> nxt w1 x = nxt w x" "\<And>x. x \<noteq> n \<Longrightarrow> prv w1 x = prv w x"
      "allocated w1 = insert n (allocated w)"
  shows "wellformed (list_add_between n (last (fQueue l # pre)) (hd (post @ [fQueue l])) w1)
           (l\<lparr>fCount := fCount l + 1\<rparr>) (pre @ n # post)"
proof -
  let ?h = "fQueue l"
  let ?w' = "list_add_between n (last (?h # pre)) (hd (post @ [?h])) w1"
  from wf have r: "ring w ?h (pre @ post)" and c: "unat (fCount l) = length (pre @ post)"
    and a: "list_all (\<lambda>p. p \<noteq> 0 \<and> p \<in> allocated w) (pre @ post)"
    by (simp_all add: wellformed_def)
  from a n have fresh: "n \<notin> set (?h # pre @ post)" by (auto simp: list_all_iff)
  have "x \<noteq> n" if "x \<in> set (?h # pre @ post)" for x using that fresh by auto
  then have "ring w1 ?h (pre @ post) = ring w ?h (pre @ post)"
    by (intro ring_cong w1)
  with r have "ring w1 ?h (pre @ post)" by simp
  from ring_link [OF this fresh] have r': "ring ?w' ?h (pre @ n # post)" .
  have al: "allocated ?w' = insert n (allocated w)"
    by (simp add: list_add_between_def w1)
  with a n have a': "list_all (\<lambda>p. p \<noteq> 0 \<and> p \<in> allocated ?w') (pre @ n # post)"
    by (auto simp: list_all_iff)
  from r' a' have "distinct (pre @ n # post)" "0 \<notin> set (pre @ n # post)"
    by (auto simp: ring_def list_all_iff)
  then have "length (pre @ n # post) < 2 ^ 64" by (rule word64_distinct_length)
  with c have "unat (fCount l + 1) = length (pre @ n # post)"
    using count_incr [of "fCount l" "pre @ post"] by simp
  with r' a' show ?thesis by (simp add: wellformed_def)
qed

lemma wellformed_unlink:
  assumes wf: "wellformed w l (pre @ y # post)"
    and w': "w' = list_del y w \<or> w' = release l y (list_del y w)"
  shows "wellformed w' (l\<lparr>fCount := fCount l - 1\<rparr>) (pre @ post)"
proof -
  let ?h = "fQueue l"
  from wf have r: "ring w ?h (pre @ y # post)" and c: "unat (fCount l) = length (pre @ y # post)"
    and a: "list_all (\<lambda>p. p \<noteq> 0 \<and> p \<in> allocated w) (pre @ y # post)"
    by (simp_all add: wellformed_def)
  from r have d: "distinct (pre @ y # post)" by (simp add: ring_def)
  have links: "nxt w' = nxt (list_del y w)" "prv w' = prv (list_del y w)"
    using w' by auto
  have "ring w' ?h (pre @ post) = ring (list_del y w) ?h (pre @ post)"
    by (rule ring_cong) (simp_all add: links)
  with ring_unlink [OF r] have r': "ring w' ?h (pre @ post)" by simp
  have "allocated w - {y} \<subseteq> allocated w'"
    using w' by (auto simp: allocated_release split: if_splits)
  with a d have a': "list_all (\<lambda>p. p \<noteq> 0 \<and> p \<in> allocated w') (pre @ post)"
    by (auto simp: list_all_iff)
  from c have "unat (fCount l - 1) = length (pre @ post)"
    by (intro count_decr) simp
  with r' a' show ?thesis by (simp add: wellformed_def)
qed

section \<open>Traversals and insertion on well-formed lists\<close>


lemma iterate_values_path:
  assumes "path (nxt w) a rest h" and "h \<notin> set rest"
  shows "iterate_values w \<lparr>fData = d, fEntry = nxt w a, fEntry2 = nxt w (nxt w a), fQueueRef = h\<rparr>
           = Some (map (val w) rest)"
  using assms
proof (induction rest arbitrary: a d)
  case Nil
  then show ?case by (subst iterate_values.simps) (simp add: valid_def)
next
  case (Cons x rest)
  from Cons.prems have x: "nxt w a = x" "x \<noteq> h" and p: "path (nxt w) x rest h" and h: "h \<notin> set rest"
    by auto
  show ?case
    by (subst iterate_values.simps)
       (simp add: valid_def getValue_def it_next_def list_entry_def x Cons.IH [OF p h])
qed

lemma forward_walk_path:
  assumes "path (nxt w) a rest h" and "h \<notin> set rest"
  shows "forward_walk w h (nxt w a) = Some rest"
  using assms
proof (induction rest arbitrary: a)
  case Nil
  then show ?case by (subst forward_walk.simps) simp
next
  case (Cons x rest)
  then show ?case by (subst forward_walk.simps) auto
qed

lemma backward_walk_path:
  assumes "path (prv w) a rest h" and "h \<notin> set rest"
  shows "backward_walk w h (prv w a) = Some rest"
  using assms
proof (induction rest arbitrary: a)
  case Nil
  then show ?case by (subst backward_walk.simps) simp
next
  case (Cons x rest)
  then show ?case by (subst backward_walk.simps) auto
qed

lemma ring_traversals:
  assumes "ring w (fQueue l) xs"
  shows "to_list w l = Some (map (val w) xs)"
    and "forward_nodes w l = Some xs"
    and "backward_nodes w l = Some (rev xs)"
  using assms
  by (simp_all add: ring_def to_list_def begin_it_def new_Itenerator_def iterate_values_path
      forward_nodes_def backward_nodes_def forward_walk_path backward_walk_path)

lemma createData_succeeds:
  assumes "succeeds e l"
  shows "\<exists>w2. priv_createData e n v w1 l = (True, w2)
           \<and> (\<forall>x. x \<noteq> n \<longrightarrow> nxt w2 x = nxt w1 x \<and> prv w2 x = prv w1 x)
           \<and> val w2 = (val w1)(n := v) \<and> allocated w2 = allocated w1
           \<and> constructed w2 = (if fNeedsCopyCtr l then insert n (constructed w1) else constructed w1)"
  using assms by (auto simp: priv_createData_def succeeds_def Let_def)

lemma priv_add_succeeds:
  assumes wf: "wellformed w l (pre @ post)"
    and ac: "allocator_contract e w l" and ok: "succeeds e l"
    and q: "if inTail then queue = hd (post @ [fQueue l]) else queue = last (fQueue l # pre)"
  shows "\<exists>w'. priv_add e v inTail queue w l = (True, w', l\<lparr>fCount := fCount l + 1\<rparr>)
           \<and> wellformed w' (l\<lparr>fCount := fCount l + 1\<rparr>) (pre @ allocate_result e # post)
           \<and> val w' = (val w)(allocate_result e := v)
           \<and> allocated w' = insert (allocate_result e) (allocated w)"
proof -
  define n where "n = allocate_result e"
  define h where "h = fQueue l"
  define w1 where "w1 = w\<lparr>allocated := insert n (allocated w)\<rparr>"
  from ok ac have n: "n \<noteq> 0" "n \<notin> allocated w" "n \<noteq> h"
    by (auto simp: succeeds_def allocator_contract_def n_def h_def)
  from createData_succeeds [OF ok, of n v w1] obtain w2 where
    cd: "priv_createData e n v w1 l = (True, w2)"
    and fr: "\<And>x. x \<noteq> n \<Longrightarrow> nxt w2 x = nxt w x" "\<And>x. x \<noteq> n \<Longrightarrow> prv w2 x = prv w x"
    and v2: "val w2 = (val w)(n := v)" and a2: "allocated w2 = insert n (allocated w)"
    by (auto simp: w1_def)
  from wf have r: "ring w h (pre @ post)"
    and a: "list_all (\<lambda>p. p \<noteq> 0 \<and> p \<in> allocated w) (pre @ post)"
    by (simp_all add: wellformed_def h_def)
  define a where "a = last (h # pre)"
  define b where "b = hd (post @ [h])"
  have "a \<in> set (h # pre)" unfolding a_def by (rule last_in_set) simp
  moreover have "b \<in> set (post @ [h])" unfolding b_def by (rule hd_in_set) simp
  ultimately have an: "a \<noteq> n" and bn: "b \<noteq> n" using n a by (auto simp: list_all_iff)
  from ring_neighbours [OF r] have nb: "nxt w a = b" "prv w b = a" by (simp_all add: a_def b_def)
  let ?w' = "list_add_between n a b w2"
  have "if inTail then queue = b else queue = a"
    unfolding a_def b_def h_def by (rule q)
  then have step: "(if inTail then list_add_tail n queue w2 else list_add n queue w2) = ?w'"
    using an bn nb by (auto simp: list_add_tail_def list_add_def fr)
  have "wellformed (list_add_between n (last (fQueue l # pre)) (hd (post @ [fQueue l])) w2)
          (l\<lparr>fCount := fCount l + 1\<rparr>) (pre @ n # post)"
    by (rule wellformed_link [OF wf]) (use n fr a2 in \<open>simp_all add: h_def\<close>)
  then have wf': "wellformed ?w' (l\<lparr>fCount := fCount l + 1\<rparr>) (pre @ n # post)"
    by (simp only: a_def b_def h_def)
  have "priv_add e v inTail queue w l = (True, ?w', l\<lparr>fCount := fCount l + 1\<rparr>)"
    using n(1) cd step by (simp add: priv_add_def Let_def n_def [symmetric] w1_def [symmetric])
  moreover have "val ?w' = (val w)(n := v)" "allocated ?w' = insert n (allocated w)"
    by (simp_all add: list_add_between_def v2 a2)
  ultimately show ?thesis using wf' by (simp add: n_def)
qed

section \<open>Removal by value\<close>

lemma priv_add_fails:
  assumes "\<not> succeeds e l"
  shows "\<exists>w'. priv_add e v inTail queue w l = (False, w', l)
           \<and> (allocate_result e = 0 \<longrightarrow> w' = w)
           \<and> (\<forall>x. x \<noteq> allocate_result e \<longrightarrow>
                 nxt w' x = nxt w x \<and> prv w' x = prv w x \<and> val w' x = val w x)
           \<and> allocated w' - {allocate_result e} = allocated w - {allocate_result e}
           \<and> allocate_result e \<notin> allocated w' - {0}
           \<and> constructed w' - {allocate_result e} = constructed w - {allocate_result e}"
proof (cases "allocate_result e = 0")
  case True
  then show ?thesis by (simp add: priv_add_def)
next
  case False
  with assms have c: "fNeedsCopyCtr l" and t: "ctor_throws e \<or> assign_throws e"
    by (auto simp: succeeds_def)
  show ?thesis
  proof (cases "ctor_throws e")
    case True
    with False c show ?thesis
      by (simp add: priv_add_def priv_createData_def priv_deallocate_def)
  next
    case nt: False
    with t have "assign_throws e" by simp
    with False c nt show ?thesis
      by (auto simp: priv_add_def priv_createData_def priv_deallocate_def destroy_def Let_def)
  qed
qed


lemma wellformed_fRetValue [simp]: "wellformed w (l\<lparr>fRetValue := r\<rparr>) xs = wellformed w l xs"
  by (simp add: wellformed_def)

lemma release_fRetValue [simp]: "release (l\<lparr>fRetValue := r\<rparr>) y w = release l y w"
  by (simp add: release_def)

lemma removeOne_loop_none:
  assumes "path (nxt w) a rest (fQueue l)" and "fQueue l \<notin> set rest" and "0 \<notin> set rest"
    and "\<forall>x\<in>set rest. val w x \<noteq> v"
  shows "removeOne_loop v (nxt w a) (nxt w (nxt w a)) d w l = Some (last (d # rest), w, l)"
  using assms
proof (induction rest arbitrary: a d)
  case Nil
  then show ?case by (subst removeOne_loop.simps) simp
next
  case (Cons x rest)
  from Cons.prems have x: "nxt w a = x" "x \<noteq> fQueue l" "x \<noteq> 0" "val w x \<noteq> v"
    by auto
  have "removeOne_loop v (nxt w x) (nxt w (nxt w x)) x w l = Some (last (x # rest), w, l)"
    by (rule Cons.IH) (use Cons.prems in auto)
  then show ?case
    by (subst removeOne_loop.simps) (simp add: x list_entry_def)
qed

lemma removeOne_loop_found:
  assumes "path (nxt w) a (r1 @ x # r2) (fQueue l)" and "fQueue l \<notin> set (r1 @ [x])"
    and "0 \<notin> set (r1 @ [x])" and "\<forall>y\<in>set r1. val w y \<noteq> v" and "val w x = v"
  shows "removeOne_loop v (nxt w a) (nxt w (nxt w a)) d w l
           = Some (x, release l x (list_del x w), l\<lparr>fCount := fCount l - 1\<rparr>)"
  using assms
proof (induction r1 arbitrary: a d)
  case Nil
  then show ?case by (subst removeOne_loop.simps) (auto simp: list_entry_def)
next
  case (Cons y r1)
  from Cons.prems have y: "nxt w a = y" "y \<noteq> fQueue l" "y \<noteq> 0" "val w y \<noteq> v"
    by auto
  have "removeOne_loop v (nxt w y) (nxt w (nxt w y)) y w l
          = Some (x, release l x (list_del x w), l\<lparr>fCount := fCount l - 1\<rparr>)"
    by (rule Cons.IH) (use Cons.prems in auto)
  then show ?case
    by (subst removeOne_loop.simps) (simp add: y list_entry_def)
qed

lemma remove1_map_first:
  "\<forall>y\<in>set r1. f y \<noteq> v \<Longrightarrow> f x = v \<Longrightarrow> remove1 v (map f (r1 @ x # r2)) = map f (r1 @ r2)"
  by (induction r1) auto

lemma removeOne_absent:
  assumes wf: "wellformed w l xs" and no: "v \<notin> set (map (val w) xs)"
  shows "removeOne v w l = Some (xs \<noteq> [], w, l)"
proof -
  from wf have p: "path (nxt w) (fQueue l) xs (fQueue l)" and h: "fQueue l \<notin> set xs"
    and z: "0 \<notin> set xs"
    by (auto simp: wellformed_def ring_def list_all_iff)
  have "last (0 # xs) \<noteq> 0 \<longleftrightarrow> xs \<noteq> []"
    by (cases xs rule: rev_cases) (use z in auto)
  with removeOne_loop_none [OF p h z, where v = v and d = 0] no show ?thesis
    by (auto simp: removeOne_def)
qed

lemma removeOne_present:
  assumes wf: "wellformed w l (r1 @ x # r2)"
    and r1: "\<forall>y\<in>set r1. val w y \<noteq> v" and x: "val w x = v"
  shows "removeOne v w l = Some (True, release l x (list_del x w), l\<lparr>fCount := fCount l - 1\<rparr>)"
proof -
  from wf have p: "path (nxt w) (fQueue l) (r1 @ x # r2) (fQueue l)"
    and h: "fQueue l \<notin> set (r1 @ [x])" and z: "0 \<notin> set (r1 @ [x])"
    by (auto simp: wellformed_def ring_def list_all_iff)
  from removeOne_loop_found [OF p h z r1 x, where d = 0] z show ?thesis
    by (auto simp: removeOne_def)
qed



section \<open>Indexed access and clear\<close>



lemma take_entry_keep [simp]:
  "take_entry False y w l = (w, if y \<noteq> 0 then l\<lparr>fRetValue := val w y\<rparr> else l)"
  by (simp add: take_entry_def list_entry_def Let_def)






section \<open>Iterator positions and removal\<close>




lemma wellformed_frame:
  assumes wf: "wellformed w l xs"
    and "\<And>x. x \<in> set (fQueue l # xs) \<Longrightarrow> nxt w' x = nxt w x"
    and "\<And>x. x \<in> set (fQueue l # xs) \<Longrightarrow> prv w' x = prv w x"
    and "set xs \<subseteq> allocated w'"
  shows "wellformed w' l xs"
proof -
  have "ring w' (fQueue l) xs = ring w (fQueue l) xs"
    by (rule ring_cong) (fact assms(2), fact assms(3))
  with wf assms(4) show ?thesis by (auto simp: wellformed_def list_all_iff)
qed

lemma priv_add_failed_wellformed:
  assumes wf: "wellformed w l xs" and ac: "allocator_contract e w l" and no: "\<not> succeeds e l"
  shows "fst (priv_add e v inTail queue w l) = False
       \<and> snd (snd (priv_add e v inTail queue w l)) = l
       \<and> wellformed (fst (snd (priv_add e v inTail queue w l))) l xs
       \<and> map (val (fst (snd (priv_add e v inTail queue w l)))) xs = map (val w) xs"
proof -
  define n where "n = allocate_result e"
  from priv_add_fails [OF no, of v inTail queue w] obtain w' where
    eq: "priv_add e v inTail queue w l = (False, w', l)"
    and z: "n = 0 \<Longrightarrow> w' = w"
    and fr: "\<And>x. x \<noteq> n \<Longrightarrow> nxt w' x = nxt w x \<and> prv w' x = prv w x \<and> val w' x = val w x"
    and al: "allocated w' - {n} = allocated w - {n}"
    by (auto simp: n_def)
  from wf have a: "set xs \<subseteq> allocated w" by (auto simp: wellformed_def list_all_iff)
  have "wellformed w' l xs \<and> map (val w') xs = map (val w) xs"
  proof (cases "n = 0")
    case True
    with z wf show ?thesis by simp
  next
    case False
    with ac have "n \<notin> allocated w" "n \<noteq> fQueue l"
      by (auto simp: allocator_contract_def n_def)
    with a have out: "x \<noteq> n" if "x \<in> set (fQueue l # xs)" for x using that by auto
    have sub: "set xs \<subseteq> allocated w'"
    proof
      fix x assume x: "x \<in> set xs"
      with out have "x \<noteq> n" by simp
      with x a have "x \<in> allocated w - {n}" by auto
      with al show "x \<in> allocated w'" by blast
    qed
    have "wellformed w' l xs"
      by (rule wellformed_frame [OF wf _ _ sub]) (simp_all add: fr out)
    moreover have "map (val w') xs = map (val w) xs"
      by (rule map_cong) (simp_all add: fr out)
    ultimately show ?thesis by simp
  qed
  with eq show ?thesis by simp
qed




section \<open>Sequences of operations keep the list well-formed\<close>

lemma wellformed_val [simp]: "wellformed (w\<lparr>val := f\<rparr>) l xs = wellformed w l xs"
  by (simp add: wellformed_def ring_def)






section \<open>Insertions\<close>

lemma append_succeeds:
  assumes wf: "wellformed w l xs" and ac: "allocator_contract e w l" and ok: "succeeds e l"
  shows "\<exists>w'. append e v w l = (True, w', l\<lparr>fCount := fCount l + 1\<rparr>)
           \<and> wellformed w' (l\<lparr>fCount := fCount l + 1\<rparr>) (xs @ [allocate_result e])
           \<and> map (val w') (xs @ [allocate_result e]) = map (val w) xs @ [v]
           \<and> allocated w' = insert (allocate_result e) (allocated w)"
proof -
  from wf have wf': "wellformed w l (xs @ [])" by simp
  have q: "if True then fQueue l = hd ([] @ [fQueue l]) else fQueue l = last (fQueue l # xs)"
    by simp
  from priv_add_succeeds [OF wf' ac ok q, of v] obtain w' where
    r: "priv_add e v True (fQueue l) w l = (True, w', l\<lparr>fCount := fCount l + 1\<rparr>)"
    and wf1: "wellformed w' (l\<lparr>fCount := fCount l + 1\<rparr>) (xs @ [allocate_result e])"
    and v: "val w' = (val w)(allocate_result e := v)"
    and a: "allocated w' = insert (allocate_result e) (allocated w)"
    by auto
  from wf1 have "allocate_result e \<notin> set xs" by (auto simp: wellformed_def ring_def)
  then have "map (val w') xs = map (val w) xs" by (auto simp: v)
  with r wf1 v a show ?thesis by (simp add: append_def)
qed

lemma insert_front_succeeds:
  assumes wf: "wellformed w l xs" and ac: "allocator_contract e w l" and ok: "succeeds e l"
  shows "\<exists>w'. insert_front e v w l = (True, w', l\<lparr>fCount := fCount l + 1\<rparr>)
           \<and> wellformed w' (l\<lparr>fCount := fCount l + 1\<rparr>) (allocate_result e # xs)
           \<and> map (val w') (allocate_result e # xs) = v # map (val w) xs
           \<and> allocated w' = insert (allocate_result e) (allocated w)"
proof -
  from wf have wf': "wellformed w l ([] @ xs)" by simp
  have q: "if False then fQueue l = hd (xs @ [fQueue l]) else fQueue l = last (fQueue l # [])"
    by simp
  from priv_add_succeeds [OF wf' ac ok q, of v] obtain w' where
    r: "priv_add e v False (fQueue l) w l = (True, w', l\<lparr>fCount := fCount l + 1\<rparr>)"
    and wf1: "wellformed w' (l\<lparr>fCount := fCount l + 1\<rparr>) (allocate_result e # xs)"
    and v: "val w' = (val w)(allocate_result e := v)"
    and a: "allocated w' = insert (allocate_result e) (allocated w)"
    by auto
  from wf1 have "allocate_result e \<notin> set xs" by (auto simp: wellformed_def ring_def)
  then have "map (val w') xs = map (val w) xs" by (auto simp: v)
  with r wf1 v a show ?thesis by (simp add: insert_front_def)
qed

lemma wellformed_to_list:
  assumes "wellformed w l xs"
  shows "to_list w l = Some (map (val w) xs)" and "unat (count l) = length xs"
  using assms ring_traversals(1) [of w l xs] by (simp_all add: wellformed_def count_def)

lemma succeeds_fCount [simp]: "succeeds e (l\<lparr>fCount := c\<rparr>) = succeeds e l"
  by (simp add: succeeds_def)

lemma priv_add_throwing:
  assumes wf: "wellformed w l xs" and c: "fNeedsCopyCtr l" and nz: "allocate_result e \<noteq> 0"
    and ac: "allocator_contract e w l" and t: "ctor_throws e \<or> assign_throws e"
  shows "\<exists>w'. priv_add e v inTail queue w l = (False, w', l)
           \<and> allocated w' = allocated w \<and> allocate_result e \<notin> allocated w'
           \<and> wellformed w' l xs \<and> to_list w' l = to_list w l"
proof -
  from c t have no: "\<not> succeeds e l" by (auto simp: succeeds_def)
  from priv_add_fails [OF no, of v inTail queue w] obtain w' where
    eq: "priv_add e v inTail queue w l = (False, w', l)"
    and al: "allocated w' - {allocate_result e} = allocated w - {allocate_result e}"
    and out: "allocate_result e \<notin> allocated w' - {0}"
    by auto
  from ac nz have "allocate_result e \<notin> allocated w" by (simp add: allocator_contract_def)
  moreover from out nz have "allocate_result e \<notin> allocated w'" by simp
  ultimately have "allocated w' = allocated w" using al by blast
  moreover from priv_add_failed_wellformed [OF wf ac no, of v inTail queue] eq
  have wf': "wellformed w' l xs" and m: "map (val w') xs = map (val w) xs" by simp_all
  from wellformed_to_list(1) [OF wf'] wellformed_to_list(1) [OF wf] m
  have "to_list w' l = to_list w l" by simp
  ultimately show ?thesis using eq wf' \<open>allocate_result e \<notin> allocated w'\<close> by simp
qed

lemma run_appends:
  assumes "wellformed w l xs" and "\<forall>(e, v)\<in>set evs. succeeds e l"
    and "run (appends evs) w l \<noteq> Misuse"
  shows "\<exists>w' l' xs'. run (appends evs) w l = Finished (w', l') \<and> wellformed w' l' xs'
           \<and> map (val w') xs' = map (val w) xs @ map snd evs"
  using assms
proof (induction evs arbitrary: w l xs)
  case Nil
  then show ?case by (auto simp: appends_def)
next
  case (Cons ev evs)
  obtain e v where ev: "ev = (e, v)" by (cases ev)
  from Cons.prems(3) have ac: "allocator_contract e w l"
    by (auto simp: appends_def ev split: if_splits)
  from Cons.prems(2) have ok: "succeeds e l" by (simp add: ev)
  from append_succeeds [OF Cons.prems(1) ac ok, of v] obtain w1 where
    a: "append e v w l = (True, w1, l\<lparr>fCount := fCount l + 1\<rparr>)"
    and wf1: "wellformed w1 (l\<lparr>fCount := fCount l + 1\<rparr>) (xs @ [allocate_result e])"
    and m1: "map (val w1) (xs @ [allocate_result e]) = map (val w) xs @ [v]"
    by auto
  have step: "run (appends (ev # evs)) w l = run (appends evs) w1 (l\<lparr>fCount := fCount l + 1\<rparr>)"
    using ac a by (simp add: appends_def ev)
  from Cons.prems(2) have ok': "\<forall>(e, v)\<in>set evs. succeeds e (l\<lparr>fCount := fCount l + 1\<rparr>)"
    by simp
  from Cons.prems(3) step have "run (appends evs) w1 (l\<lparr>fCount := fCount l + 1\<rparr>) \<noteq> Misuse"
    by simp
  from Cons.IH [OF wf1 ok' this] obtain w' l' xs' where
    r: "run (appends evs) w1 (l\<lparr>fCount := fCount l + 1\<rparr>) = Finished (w', l')"
    and wf': "wellformed w' l' xs'"
    and m: "map (val w') xs' = map (val w1) (xs @ [allocate_result e]) @ map snd evs"
    by blast
  from m have "map (val w') xs' = map (val w) xs @ map snd (ev # evs)"
    by (simp only: m1) (simp add: ev)
  with r wf' step show ?case by auto
qed

lemma run_inserts:
  assumes "wellformed w l xs" and "\<forall>(e, v)\<in>set evs. succeeds e l"
    and "run (inserts evs) w l \<noteq> Misuse"
  shows "\<exists>w' l' xs'. run (inserts evs) w l = Finished (w', l') \<and> wellformed w' l' xs'
           \<and> map (val w') xs' = rev (map snd evs) @ map (val w) xs"
  using assms
proof (induction evs arbitrary: w l xs)
  case Nil
  then show ?case by (auto simp: inserts_def)
next
  case (Cons ev evs)
  obtain e v where ev: "ev = (e, v)" by (cases ev)
  from Cons.prems(3) have ac: "allocator_contract e w l"
    by (auto simp: inserts_def ev split: if_splits)
  from Cons.prems(2) have ok: "succeeds e l" by (simp add: ev)
  from insert_front_succeeds [OF Cons.prems(1) ac ok, of v] obtain w1 where
    a: "insert_front e v w l = (True, w1, l\<lparr>fCount := fCount l + 1\<rparr>)"
    and wf1: "wellformed w1 (l\<lparr>fCount := fCount l + 1\<rparr>) (allocate_result e # xs)"
    and m1: "map (val w1) (allocate_result e # xs) = v # map (val w) xs"
    by auto
  have step: "run (inserts (ev # evs)) w l = run (inserts evs) w1 (l\<lparr>fCount := fCount l + 1\<rparr>)"
    using ac a by (simp add: inserts_def ev)
  from Cons.prems(2) have ok': "\<forall>(e, v)\<in>set evs. succeeds e (l\<lparr>fCount := fCount l + 1\<rparr>)"
    by simp
  from Cons.prems(3) step have "run (inserts evs) w1 (l\<lparr>fCount := fCount l + 1\<rparr>) \<noteq> Misuse"
    by simp
  from Cons.IH [OF wf1 ok' this] obtain w' l' xs' where
    r: "run (inserts evs) w1 (l\<lparr>fCount := fCount l + 1\<rparr>) = Finished (w', l')"
    and wf': "wellformed w' l' xs'"
    and m: "map (val w') xs' = rev (map snd evs) @ map (val w1) (allocate_result e # xs)"
    by blast
  from m have "map (val w') xs' = rev (map snd (ev # evs)) @ map (val w) xs"
    by (simp only: m1) (simp add: ev)
  with r wf' step show ?case by auto
qed

section \<open>Splicing\<close>

lemma path_redirect:
  assumes "path f p ys q" and "distinct (p # ys)" and "a = last (p # ys)" and "g a = q'"
    and "\<And>x. x \<in> set (p # ys) \<Longrightarrow> x \<noteq> a \<Longrightarrow> g x = f x"
  shows "path g p ys q'"
  using assms
proof (induction ys arbitrary: p)
  case Nil
  then show ?case by simp
next
  case (Cons y ys)
  have l: "last (p # y # ys) = last (y # ys)" by simp
  have "last (y # ys) \<in> set (y # ys)" by (rule last_in_set) simp
  with Cons.prems(2) have pl: "p \<noteq> last (y # ys)" by auto
  have "path g y ys q'"
  proof (rule Cons.IH)
    show "path f y ys q" using Cons.prems(1) by simp
    show "distinct (y # ys)" using Cons.prems(2) by simp
    show "a = last (y # ys)" using Cons.prems(3) unfolding l .
    show "g a = q'" by (rule Cons.prems(4))
    show "g x = f x" if "x \<in> set (y # ys)" "x \<noteq> a" for x
    proof (rule Cons.prems(5))
      show "x \<in> set (p # y # ys)" using that(1) by simp
      show "x \<noteq> a" by (rule that(2))
    qed
  qed
  moreover have "g p = f p"
  proof (rule Cons.prems(5))
    show "p \<in> set (p # y # ys)" by simp
    show "p \<noteq> a" using pl Cons.prems(3) unfolding l by simp
  qed
  with Cons.prems(1) have "g p = y" by simp
  ultimately show ?case by simp
qed

lemma path_splice_back:
  assumes d: "path f hB ys hB" and s: "path f hA xs hA" and ne: "xs \<noteq> []"
    and dist: "distinct (hB # ys @ xs)"
    and a: "a = last (hB # ys)" and ga: "g a = hd xs" and gl: "g (last xs) = hB"
    and same: "\<And>x. x \<in> set (hB # ys @ xs) \<Longrightarrow> x \<noteq> a \<Longrightarrow> x \<noteq> last xs \<Longrightarrow> g x = f x"
  shows "path g hB (ys @ xs) hB"
proof -
  from ne obtain x xs' where xs: "xs = x # xs'" by (cases xs) auto
  have ain: "a \<in> set (hB # ys)" unfolding a by (rule last_in_set) simp
  have lin: "last xs \<in> set xs" using ne by (rule last_in_set)
  have "path g hB ys x"
  proof (rule path_redirect [OF d _ a])
    show "distinct (hB # ys)" using dist by simp
    show "g a = x" using ga xs by simp
    show "g z = f z" if "z \<in> set (hB # ys)" "z \<noteq> a" for z
    proof (rule same)
      show "z \<in> set (hB # ys @ xs)" using that(1) by auto
      show "z \<noteq> a" by (rule that(2))
      show "z \<noteq> last xs" using that(1) lin dist by auto
    qed
  qed
  moreover have "path g x xs' hB"
  proof (rule path_redirect [where f = f and q = hA and a = "last xs"])
    show "path f x xs' hA" using s xs by simp
    show "distinct (x # xs')" using dist xs by simp
    show "last xs = last (x # xs')" by (simp only: xs)
    show "g (last xs) = hB" by (rule gl)
    show "g z = f z" if "z \<in> set (x # xs')" "z \<noteq> last xs" for z
    proof (rule same)
      show "z \<in> set (hB # ys @ xs)" using that(1) xs by auto
      show "z \<noteq> a" using that(1) ain dist xs by auto
      show "z \<noteq> last xs" by (rule that(2))
    qed
  qed
  ultimately show ?thesis by (simp add: xs path_append)
qed

lemma path_splice_front:
  assumes d: "path f hB zs hB" and s: "path f hA us hA" and ne: "us \<noteq> []"
    and dist: "distinct (hB # us @ zs)"
    and gh: "g hB = hd us" and gl: "g (last us) = hd (zs @ [hB])"
    and same: "\<And>x. x \<in> set (us @ zs) \<Longrightarrow> x \<noteq> last us \<Longrightarrow> g x = f x"
  shows "path g hB (us @ zs) hB"
proof -
  from ne obtain u us' where us: "us = u # us'" by (cases us) auto
  have lin: "last us \<in> set us" using ne by (rule last_in_set)
  have redirect: "path g u us' q'" if "g (last us) = q'" for q'
  proof (rule path_redirect [where f = f and q = hA and a = "last us"])
    show "path f u us' hA" using s us by simp
    show "distinct (u # us')" using dist us by simp
    show "last us = last (u # us')" by (simp only: us)
    show "g (last us) = q'" by (rule that)
    show "g z = f z" if "z \<in> set (u # us')" "z \<noteq> last us" for z
    proof (rule same)
      show "z \<in> set (us @ zs)" using that(1) us by auto
      show "z \<noteq> last us" by (rule that(2))
    qed
  qed
  have "path g u (us' @ zs) hB"
  proof (cases zs)
    case Nil
    with gl have "g (last us) = hB" by simp
    from redirect [OF this] Nil show ?thesis by simp
  next
    case (Cons z zs')
    with gl have "g (last us) = z" by simp
    from redirect [OF this] have 1: "path g u us' z" .
    from d Cons have fz: "path f z zs' hB" by simp
    have "path g z zs' hB = path f z zs' hB"
    proof (rule path_cong)
      fix x assume x: "x \<in> set (z # zs')"
      show "g x = f x"
      proof (rule same)
        show "x \<in> set (us @ zs)" using x Cons by auto
        show "x \<noteq> last us" using x lin dist Cons by auto
      qed
    qed
    with fz have "path g z zs' hB" by simp
    with 1 Cons show ?thesis by (simp add: path_append)
  qed
  with gh us show ?thesis by simp
qed

lemma ring_ends:
  assumes r: "ring w h xs" and ne: "xs \<noteq> []"
  shows "nxt w h = hd xs" and "prv w h = last xs"
proof -
  from r have "ring w h ([] @ xs)" by simp
  from ring_neighbours(1) [OF this] ne show "nxt w h = hd xs" by simp
  from r have "ring w h (xs @ [])" by simp
  from ring_neighbours(2) [OF this] ne show "prv w h = last xs" by simp
qed

lemma ring_splice_back:
  assumes ra: "ring w hA xs" and rb: "ring w hB ys" and ne: "xs \<noteq> []"
    and dj: "set (hA # xs) \<inter> set (hB # ys) = {}"
  shows "ring (list_splice_back hA hB w) hB (ys @ xs)"
proof -
  define first where "first = hd xs"
  define lst where "lst = last xs"
  define at where "at = last (hB # ys)"
  define w' where "w' = list_splice_back hA hB w"
  from ra have fa: "path (nxt w) hA xs hA" and pa: "path (prv w) hA (rev xs) hA"
    and da: "distinct (hA # xs)" by (simp_all add: ring_def)
  from rb have fb: "path (nxt w) hB ys hB" and pb: "path (prv w) hB (rev ys) hB"
    and db: "distinct (hB # ys)" by (simp_all add: ring_def)
  from ring_ends [OF ra ne] have ea: "nxt w hA = first" "prv w hA = lst"
    by (simp_all add: first_def lst_def)
  from rb have "ring w hB (ys @ [])" by simp
  from ring_neighbours(2) [OF this] have eb: "prv w hB = at" by (simp add: at_def)
  have nxt': "nxt w' = (nxt w)(at := first, lst := hB)"
    and prv': "prv w' = (prv w)(first := at, hB := lst)"
    by (simp_all add: w'_def list_splice_back_def Let_def ea eb)
  have fin: "first \<in> set xs" and lin: "lst \<in> set xs"
    using ne by (simp_all add: first_def lst_def)
  have ain: "at \<in> set (hB # ys)" unfolding at_def by (rule last_in_set) simp
  from da db dj have dist: "distinct (hB # ys @ xs)" by auto
  have ne_al: "at \<noteq> lst" and ne_fh: "first \<noteq> hB" using fin lin ain dj by auto
  have "path (nxt w') hB (ys @ xs) hB"
  proof (rule path_splice_back [OF fb fa ne dist at_def])
    show "nxt w' at = hd xs" using ne_al by (simp add: nxt' first_def)
    show "nxt w' (last xs) = hB" by (simp add: nxt' lst_def)
    show "nxt w' x = nxt w x" if "x \<noteq> at" "x \<noteq> last xs" for x
      using that by (simp add: nxt' lst_def)
  qed
  moreover have "path (prv w') hB (rev xs @ rev ys) hB"
  proof (rule path_splice_front [OF pb pa])
    show "rev xs \<noteq> []" using ne by simp
    show "distinct (hB # rev xs @ rev ys)" using dist by auto
    show "prv w' hB = hd (rev xs)" using ne by (simp add: prv' lst_def hd_rev)
    have "last (rev xs) = first" using ne by (simp add: first_def last_rev)
    moreover have "hd (rev ys @ [hB]) = at" by (simp only: at_def hd_rev_snoc)
    ultimately show "prv w' (last (rev xs)) = hd (rev ys @ [hB])"
      using ne_fh by (simp add: prv')
    show "prv w' x = prv w x" if "x \<in> set (rev xs @ rev ys)" "x \<noteq> last (rev xs)" for x
    proof -
      from that(1) dist have "x \<noteq> hB" by auto
      moreover from that(2) \<open>last (rev xs) = first\<close> have "x \<noteq> first" by simp
      ultimately show ?thesis by (simp add: prv')
    qed
  qed
  ultimately show ?thesis using dist by (simp add: ring_def w'_def)
qed

lemma ring_splice_front:
  assumes ra: "ring w hA xs" and rb: "ring w hB ys" and ne: "xs \<noteq> []"
    and dj: "set (hA # xs) \<inter> set (hB # ys) = {}"
  shows "ring (list_splice_front hA hB w) hB (xs @ ys)"
proof -
  define first where "first = hd xs"
  define lst where "lst = last xs"
  define at where "at = hd (ys @ [hB])"
  define w' where "w' = list_splice_front hA hB w"
  from ra have fa: "path (nxt w) hA xs hA" and pa: "path (prv w) hA (rev xs) hA"
    and da: "distinct (hA # xs)" by (simp_all add: ring_def)
  from rb have fb: "path (nxt w) hB ys hB" and pb: "path (prv w) hB (rev ys) hB"
    and db: "distinct (hB # ys)" by (simp_all add: ring_def)
  from ring_ends [OF ra ne] have ea: "nxt w hA = first" "prv w hA = lst"
    by (simp_all add: first_def lst_def)
  from rb have "ring w hB ([] @ ys)" by simp
  from ring_neighbours(1) [OF this] have eb: "nxt w hB = at" by (simp add: at_def)
  have nxt': "nxt w' = (nxt w)(hB := first, lst := at)"
    and prv': "prv w' = (prv w)(first := hB, at := lst)"
    by (simp_all add: w'_def list_splice_front_def Let_def ea eb)
  have fin: "first \<in> set xs" and lin: "lst \<in> set xs"
    using ne by (simp_all add: first_def lst_def)
  have ain: "at \<in> set (ys @ [hB])" unfolding at_def by (rule hd_in_set) simp
  from da db dj have dist: "distinct (hB # xs @ ys)" by auto
  have ne_fa: "first \<noteq> at" and ne_lh: "lst \<noteq> hB" using fin lin ain dj by auto
  have "path (nxt w') hB (xs @ ys) hB"
  proof (rule path_splice_front [OF fb fa ne dist])
    show "nxt w' hB = hd xs" using ne_lh by (simp add: nxt' first_def)
    show "nxt w' (last xs) = hd (ys @ [hB])" by (simp add: nxt' lst_def at_def)
    show "nxt w' x = nxt w x" if "x \<in> set (xs @ ys)" "x \<noteq> last xs" for x
    proof -
      from that(1) dist have "x \<noteq> hB" by auto
      with that(2) show ?thesis by (simp add: nxt' lst_def)
    qed
  qed
  moreover have "path (prv w') hB (rev ys @ rev xs) hB"
  proof (rule path_splice_back [OF pb pa, where a = at])
    show "rev xs \<noteq> []" using ne by simp
    show "distinct (hB # rev ys @ rev xs)" using dist by auto
    show "at = last (hB # rev ys)" by (simp only: at_def last_Cons_rev)
    show "prv w' at = hd (rev xs)" using ne by (simp add: prv' lst_def hd_rev)
    have lr: "last (rev xs) = first" using ne by (simp add: first_def last_rev)
    show "prv w' (last (rev xs)) = hB" using ne_fa by (simp add: prv' lr)
    show "prv w' x = prv w x" if "x \<noteq> at" "x \<noteq> last (rev xs)" for x
      using that by (simp add: prv' lr)
  qed
  ultimately show ?thesis using dist by (simp add: ring_def w'_def)
qed

lemma splice_count:
  assumes wa: "wellformed w a xs" and wb: "wellformed w b ys"
    and dj: "set (fQueue a # xs) \<inter> set (fQueue b # ys) = {}"
  shows "unat (fCount b + fCount a) = length ys + length xs"
proof -
  from wa wb dj have "distinct (ys @ xs)" "0 \<notin> set (ys @ xs)"
    by (auto simp: wellformed_def ring_def list_all_iff)
  then have "length (ys @ xs) < 2 ^ 64" by (rule word64_distinct_length)
  moreover from wa wb have "unat (fCount a) = length xs" "unat (fCount b) = length ys"
    by (simp_all add: wellformed_def)
  ultimately have "unat (fCount b) + unat (fCount a) < 2 ^ LENGTH(64)" by simp
  then have "unat (fCount b + fCount a) = unat (fCount b) + unat (fCount a)"
    by (simp only: unat_add_lem)
  with \<open>unat (fCount a) = length xs\<close> \<open>unat (fCount b) = length ys\<close> show ?thesis by simp
qed

lemma splice_back_fields [simp]:
  "val (list_splice_back hA hB w) = val w"
  "allocated (list_splice_back hA hB w) = allocated w"
  by (simp_all add: list_splice_back_def Let_def)

lemma splice_front_fields [simp]:
  "val (list_splice_front hA hB w) = val w"
  "allocated (list_splice_front hA hB w) = allocated w"
  by (simp_all add: list_splice_front_def Let_def)

lemma init_fields [simp]:
  "val (INIT_LIST_HEAD h w) = val w"
  "allocated (INIT_LIST_HEAD h w) = allocated w"
  "nxt (INIT_LIST_HEAD h w) = (nxt w)(h := h)"
  "prv (INIT_LIST_HEAD h w) = (prv w)(h := h)"
  by (simp_all add: INIT_LIST_HEAD_def)

text \<open>the destination after either splice, whether or not the source is re-initialised\<close>

lemma splice_destination:
  assumes wa: "wellformed w a xs" and wb: "wellformed w b ys"
    and dj: "set (fQueue a # xs) \<inter> set (fQueue b # ys) = {}"
    and b': "b' = b\<lparr>fCount := fCount b + fCount a\<rparr>"
  shows "wellformed (list_splice_tail (fQueue a) (fQueue b) w) b' (ys @ xs)"
    and "wellformed (list_splice_tail_init (fQueue a) (fQueue b) w) b' (ys @ xs)"
    and "wellformed (list_splice (fQueue a) (fQueue b) w) b' (xs @ ys)"
    and "wellformed (list_splice_init (fQueue a) (fQueue b) w) b' (xs @ ys)"
proof -
  let ?hA = "fQueue a" and ?hB = "fQueue b"
  from wa have ra: "ring w ?hA xs" and aa: "list_all (\<lambda>p. p \<noteq> 0 \<and> p \<in> allocated w) xs"
    by (simp_all add: wellformed_def)
  from wb have rb: "ring w ?hB ys" and ab: "list_all (\<lambda>p. p \<noteq> 0 \<and> p \<in> allocated w) ys"
    by (simp_all add: wellformed_def)
  from splice_count [OF wa wb dj] have c: "unat (fCount b') = length ys + length xs"
    by (simp add: b')
  have hb: "fQueue b' = ?hB" by (simp add: b')
  have out: "x \<noteq> ?hA" if "x \<in> set (?hB # ys @ xs)" for x
    using that dj ra by (auto simp: ring_def)
  have rings: "ring (list_splice_tail ?hA ?hB w) ?hB (ys @ xs)
      \<and> ring (list_splice_tail_init ?hA ?hB w) ?hB (ys @ xs)
      \<and> ring (list_splice ?hA ?hB w) ?hB (xs @ ys)
      \<and> ring (list_splice_init ?hA ?hB w) ?hB (xs @ ys)"
  proof (cases "xs = []")
    case True
    with ra have "list_empty ?hA w" by (simp add: ring_def list_empty_def)
    with True rb show ?thesis
      by (simp add: list_splice_tail_def list_splice_tail_init_def list_splice_def
          list_splice_init_def)
  next
    case False
    from False have "hd xs \<in> set xs" by simp
    with ra have "hd xs \<noteq> ?hA" by (auto simp: ring_def)
    with ring_ends(1) [OF ra False] have ne: "\<not> list_empty ?hA w"
      by (simp add: list_empty_def)
    from ring_splice_back [OF ra rb False dj]
    have r1: "ring (list_splice_back ?hA ?hB w) ?hB (ys @ xs)" .
    have "ring (INIT_LIST_HEAD ?hA (list_splice_back ?hA ?hB w)) ?hB (ys @ xs)
            = ring (list_splice_back ?hA ?hB w) ?hB (ys @ xs)"
      by (rule ring_cong) (simp_all add: out)
    with r1 have r2: "ring (INIT_LIST_HEAD ?hA (list_splice_back ?hA ?hB w)) ?hB (ys @ xs)"
      by simp
    from ring_splice_front [OF ra rb False dj]
    have r3: "ring (list_splice_front ?hA ?hB w) ?hB (xs @ ys)" .
    have out': "x \<noteq> ?hA" if "x \<in> set (?hB # xs @ ys)" for x
      using that out [of x] by auto
    have "ring (INIT_LIST_HEAD ?hA (list_splice_front ?hA ?hB w)) ?hB (xs @ ys)
            = ring (list_splice_front ?hA ?hB w) ?hB (xs @ ys)"
      by (rule ring_cong) (simp_all add: out')
    with r3 have r4: "ring (INIT_LIST_HEAD ?hA (list_splice_front ?hA ?hB w)) ?hB (xs @ ys)"
      by simp
    from ne r1 r2 r3 r4 show ?thesis
      by (simp add: list_splice_tail_def list_splice_tail_init_def list_splice_def
          list_splice_init_def)
  qed
  have al: "allocated (list_splice_tail ?hA ?hB w) = allocated w"
    "allocated (list_splice_tail_init ?hA ?hB w) = allocated w"
    "allocated (list_splice ?hA ?hB w) = allocated w"
    "allocated (list_splice_init ?hA ?hB w) = allocated w"
    by (simp_all add: list_splice_tail_def list_splice_tail_init_def list_splice_def
        list_splice_init_def)
  from rings aa ab c show "wellformed (list_splice_tail ?hA ?hB w) b' (ys @ xs)"
    by (simp add: wellformed_def hb al)
  from rings aa ab c show "wellformed (list_splice_tail_init ?hA ?hB w) b' (ys @ xs)"
    by (simp add: wellformed_def hb al)
  from rings aa ab c show "wellformed (list_splice ?hA ?hB w) b' (xs @ ys)"
    by (simp add: wellformed_def hb al)
  from rings aa ab c show "wellformed (list_splice_init ?hA ?hB w) b' (xs @ ys)"
    by (simp add: wellformed_def hb al)
qed

text \<open>the source after a splice that re-initialises it\<close>

lemma splice_source_emptied:
  assumes wa: "wellformed w a xs"
  shows "wellformed (list_splice_tail_init (fQueue a) hB w) (a\<lparr>fCount := 0\<rparr>) []"
    and "wellformed (list_splice_init (fQueue a) hB w) (a\<lparr>fCount := 0\<rparr>) []"
proof -
  from wa have ra: "ring w (fQueue a) xs" by (simp add: wellformed_def)
  have e: "ring w (fQueue a) []" if "list_empty (fQueue a) w"
  proof -
    from that ra have "xs = []" by (cases xs) (auto simp: list_empty_def ring_def)
    with ra show ?thesis by simp
  qed
  show "wellformed (list_splice_tail_init (fQueue a) hB w) (a\<lparr>fCount := 0\<rparr>) []"
    using e by (simp add: list_splice_tail_init_def wellformed_def ring_empty)
  show "wellformed (list_splice_init (fQueue a) hB w) (a\<lparr>fCount := 0\<rparr>) []"
    using e by (simp add: list_splice_init_def wellformed_def ring_empty)
qed

lemma splice_vals [simp]:
  "val (list_splice_tail hA hB w) = val w" "val (list_splice_tail_init hA hB w) = val w"
  "val (list_splice hA hB w) = val w" "val (list_splice_init hA hB w) = val w"
  by (simp_all add: list_splice_tail_def list_splice_tail_init_def list_splice_def
      list_splice_init_def)

section \<open>Evaluation of the example states\<close>

lemmas ops_defs = appended_def new_list_def priv_init_def INIT_LIST_HEAD_def blank_def gives_def
  append_def priv_add_def priv_createData_def list_add_tail_def list_add_def list_add_between_def
  Let_def list_entry_def release_def priv_deallocate_def destroy_def list_del_def list_del_between_def

lemma one_a_eq: "one_a =
  (\<lparr>nxt = (\<lambda>_. 0)(0x1000 := 0x2000, 0x2000 := 0x1000),
    prv = (\<lambda>_. 0)(0x1000 := 0x2000, 0x2000 := 0x1000),
    val = (\<lambda>_. [])(0x2000 := ''a''), allocated = {0x2000}, constructed = {0x2000}\<rparr>,
   \<lparr>fCount = 1, fQueue = 0x1000, fNeedsCopyCtr = True, fRetValue = []\<rparr>)"
  by (simp add: one_a_def ops_defs fun_eq_iff)


lemmas more_defs = fresh_list_def removeOne_def removeAll_values_def getAt_def clear_def
  take_entry_def priv_getFirstOrLast_def getFirst_def getLast_def remove_def
  insert_front_def appendAt_def insertAt_def begin_it_def new_Itenerator_def valid_def
  it_next_def getValue_def setValue_def allocator_contract_def to_list_def forward_nodes_def
  backward_nodes_def count_def LIST_POISON1_def LIST_POISON2_def

lemmas state_defs = one_a_def two_items_def abc_def abbc_def throwing_def succeeds_def
  wellformed_def ring_def

lemma two_items_wellformed: "wellformed (fst two_items) (snd two_items) [0x2000, 0x3000]"
  by (simp add: state_defs ops_defs more_defs)

lemma abc_wellformed: "wellformed (fst abc) (snd abc) [0x2000, 0x3000, 0x4000]"
  by (simp add: state_defs ops_defs more_defs)

lemma abbc_wellformed: "wellformed (fst abbc) (snd abbc) [0x2000, 0x3000, 0x4000, 0x5000]"
  by (simp add: state_defs ops_defs more_defs)

lemmas two_lists_defs = two_lists_def tl_world_def tl_first_def tl_second_def

lemma two_lists_wellformed:
  "wellformed tl_world tl_first [0x2000, 0x3000, 0x4000]"
  "wellformed tl_world tl_second [0x5000, 0x6000]"
  "set (fQueue tl_first # [0x2000, 0x3000, 0x4000]) \<inter> set (fQueue tl_second # [0x5000, 0x6000]) = {}"
  by (simp_all add: two_lists_defs state_defs ops_defs more_defs)

lemma two_lists_values:
  "map (val tl_world) [0x2000, 0x3000, 0x4000] = [''a'', ''b'', ''c'']"
  "map (val tl_world) [0x5000, 0x6000] = [''x'', ''y'']"
  by (simp_all add: two_lists_defs state_defs ops_defs more_defs)

lemma mime_scan_filter:
  "mime_scan es ext acc = acc @ map mimeType (filter (\<lambda>e. fileExtension e = ext) es)"
  by (induction es arbitrary: acc) auto

lemmas table_defs = table_def row_def table_rows_0_def table_rows_64_def table_rows_128_def table_rows_192_def table_rows_256_def table_rows_320_def table_rows_384_def table_rows_448_def table_rows_512_def table_rows_576_def table_rows_640_def

lemma table_length: "length table = 641"
  by (simp add: table_defs)

lemma map_kept: "map f (kept rm i xs) = kept rm i (map f xs)"
  by (induction xs arbitrary: i) simp_all

lemma visit_loop_wellformed:
  assumes "wellformed w l (pre @ rest)"
  shows "\<exists>w' l'. visit_loop rm i
                   \<lparr>fData = d, fEntry = hd (rest @ [fQueue l]),
                    fEntry2 = nxt w (hd (rest @ [fQueue l])), fQueueRef = fQueue l\<rparr> w l
                 = Some (map (val w) rest, w', l')
           \<and> wellformed w' l' (pre @ kept rm i rest) \<and> val w' = val w"
  using assms
proof (induction rest arbitrary: pre w l i d)
  case Nil
  then show ?case by (subst visit_loop.simps) (simp add: valid_def)
next
  case (Cons x rest)
  let ?h = "fQueue l"
  define it where "it = \<lparr>fData = d, fEntry = x, fEntry2 = nxt w x, fQueueRef = ?h\<rparr>"
  from Cons.prems have r: "ring w ?h ((pre @ [x]) @ rest)" and x: "x \<noteq> ?h" "x \<noteq> 0"
    by (auto simp: wellformed_def ring_def)
  from ring_neighbours(1) [OF r] have nx: "nxt w x = hd (rest @ [?h])" by simp
  have v: "valid it" using x by (simp add: valid_def it_def)
  have g: "getValue w it = (val w x, it\<lparr>fData := x\<rparr>)"
    by (simp add: getValue_def list_entry_def it_def)
  show ?case
  proof (cases "rm i")
    case True
    define w1 where "w1 = release l x (list_del x w)"
    define l1 where "l1 = l\<lparr>fCount := fCount l - 1\<rparr>"
    have rem: "remove (it\<lparr>fData := x\<rparr>) w l = (w1, l1)"
      using x by (simp add: remove_def Let_def it_def w1_def l1_def)
    have wf1: "wellformed w1 l1 (pre @ rest)"
      unfolding w1_def l1_def by (rule wellformed_unlink [OF Cons.prems]) simp
    have h1: "fQueue l1 = ?h" by (simp add: l1_def)
    have nit: "it_next w1 (it\<lparr>fData := x\<rparr>)
        = \<lparr>fData = x, fEntry = hd (rest @ [fQueue l1]),
           fEntry2 = nxt w1 (hd (rest @ [fQueue l1])), fQueueRef = fQueue l1\<rparr>"
      by (simp add: it_next_def it_def nx h1)
    from Cons.IH [OF wf1, of "Suc i" x] obtain w' l' where
      "visit_loop rm (Suc i) (it_next w1 (it\<lparr>fData := x\<rparr>)) w1 l1
         = Some (map (val w1) rest, w', l')"
      and "wellformed w' l' (pre @ kept rm (Suc i) rest)" and "val w' = val w1"
      by (auto simp: nit)
    moreover have "val w1 = val w" by (simp add: w1_def)
    ultimately have "visit_loop rm i it w l = Some (map (val w) (x # rest), w', l')
        \<and> wellformed w' l' (pre @ kept rm i (x # rest)) \<and> val w' = val w"
      using True v g rem by (subst visit_loop.simps) simp
    then show ?thesis by (auto simp: it_def)
  next
    case False
    from Cons.prems have wf1: "wellformed w l ((pre @ [x]) @ rest)" by simp
    have nit: "it_next w (it\<lparr>fData := x\<rparr>)
        = \<lparr>fData = x, fEntry = hd (rest @ [?h]),
           fEntry2 = nxt w (hd (rest @ [?h])), fQueueRef = ?h\<rparr>"
      by (simp add: it_next_def it_def nx)
    from Cons.IH [OF wf1, of "Suc i" x] obtain w' l' where
      "visit_loop rm (Suc i) (it_next w (it\<lparr>fData := x\<rparr>)) w l
         = Some (map (val w) rest, w', l')"
      and "wellformed w' l' ((pre @ [x]) @ kept rm (Suc i) rest)" and "val w' = val w"
      by (auto simp: nit)
    then have "visit_loop rm i it w l = Some (map (val w) (x # rest), w', l')
        \<and> wellformed w' l' (pre @ kept rm i (x # rest)) \<and> val w' = val w"
      using False v g by (subst visit_loop.simps) simp
    then show ?thesis by (auto simp: it_def)
  qed
qed

section \<open>The claims\<close>

text \<open>
  C3. The claim: \<^verbatim>\<open>removeOne(v)\<close> returns true exactly when an element equal to \<open>v\<close>
  was found and removed, and false whenever no element equals \<open>v\<close>. The code returns
  \<^verbatim>\<open>data != nullptr\<close>, and \<^verbatim>\<open>data\<close> is assigned in every iteration of the scan, so
  on the list holding the single element "a" the call \<^verbatim>\<open>removeOne("b")\<close> returns true
  although nothing was found and the list still holds "a".
\<close>

theorem removeOne_true_without_match:
  "removeOne ''b'' (fst one_a) (snd one_a) = Some (True, fst one_a, snd one_a)
   \<and> to_list (fst one_a) (snd one_a) = Some [''a'']"
  by (simp add: one_a_eq removeOne_def removeOne_loop.simps list_entry_def to_list_def
      begin_it_def new_Itenerator_def iterate_values.simps valid_def getValue_def it_next_def)




text \<open>
  C8. On every well-formed list, \<^verbatim>\<open>removeOne(v)\<close> returns, and the head-to-tail
  sequence of values afterwards is the sequence before with its first element equal to
  \<open>v\<close> taken out (and unchanged when no element equals \<open>v\<close>): at most one element
  goes, it is the first match, and the others keep their order. The count follows the
  sequence.
\<close>

theorem removeOne_takes_out_first_match:
  assumes wf: "wellformed w l xs"
  shows "\<exists>r w' l'. removeOne v w l = Some (r, w', l')
           \<and> to_list w l = Some (map (val w) xs)
           \<and> to_list w' l' = Some (remove1 v (map (val w) xs))
           \<and> unat (count l') = length (remove1 v (map (val w) xs))"
proof (cases "v \<in> set (map (val w) xs)")
  case False
  then have "remove1 v (map (val w) xs) = map (val w) xs" by (simp add: remove1_idem)
  with removeOne_absent [OF wf False] wellformed_to_list [OF wf] show ?thesis by simp
next
  case True
  then have "\<exists>y\<in>set xs. val w y = v" by auto
  from split_list_first_prop [OF this] obtain r1 y r2 where
    xs: "xs = r1 @ y # r2" and y: "val w y = v" and r1: "\<forall>z\<in>set r1. val w z \<noteq> v"
    by blast
  define w' where "w' = release l y (list_del y w)"
  define l' where "l' = l\<lparr>fCount := fCount l - 1\<rparr>"
  from removeOne_present [OF wf [unfolded xs] r1 y]
  have res: "removeOne v w l = Some (True, w', l')" by (simp add: w'_def l'_def)
  have wf': "wellformed w' l' (r1 @ r2)"
    unfolding w'_def l'_def by (rule wellformed_unlink [OF wf [unfolded xs]]) simp
  have "val w' = val w" by (simp add: w'_def)
  moreover from remove1_map_first [OF r1 y]
  have "remove1 v (map (val w) xs) = map (val w) (r1 @ r2)" by (simp only: xs)
  ultimately show ?thesis
    using res wellformed_to_list [OF wf'] wellformed_to_list(1) [OF wf] by auto
qed

theorem removeOne_takes_out_first_match_witness:
  "wellformed (fst abbc) (snd abbc) [0x2000, 0x3000, 0x4000, 0x5000]
   \<and> (\<exists>r w' l'. removeOne ''b'' (fst abbc) (snd abbc) = Some (r, w', l')
         \<and> to_list (fst abbc) (snd abbc) = Some [''a'', ''b'', ''b'', ''c'']
         \<and> to_list w' l' = Some [''a'', ''b'', ''c'']
         \<and> unat (count l') = 3)"
proof -
  have v: "map (val (fst abbc)) [0x2000, 0x3000, 0x4000, 0x5000] = [''a'', ''b'', ''b'', ''c'']"
    by (simp add: state_defs ops_defs more_defs)
  from removeOne_takes_out_first_match [OF abbc_wellformed, of "''b''"] abbc_wellformed
  show ?thesis by (simp only: v) (simp add: eval_nat_numeral)
qed

text \<open>
  C2. On every well-formed list, when \<^verbatim>\<open>_allocate\<close> returns the null pointer,
  \<^verbatim>\<open>append\<close> and \<^verbatim>\<open>insert\<close> return false and leave the memory and the list object
  exactly as they were (so the count, the element sequence and the set of live blocks
  are the same and no new node is reachable); an \<^verbatim>\<open>append\<close> that follows, with an
  allocator that keeps its contract and hands out a block, and with no exception
  thrown, returns true, adds the value at the end and makes the count one larger.
\<close>

theorem allocation_failure_leaves_list_unchanged:
  assumes wf: "wellformed w l xs" and fail: "allocate_result e = 0"
    and ac: "allocator_contract e' w l" and ok: "succeeds e' l"
  shows "append e v w l = (False, w, l) \<and> insert_front e v w l = (False, w, l)
       \<and> (\<exists>w' l'. append e' v' (fst (snd (append e v w l))) (snd (snd (append e v w l)))
                     = (True, w', l')
             \<and> unat (count l') = Suc (unat (count l))
             \<and> to_list w' l' = Some (map (val w) xs @ [v']))"
proof -
  from fail have a: "append e v w l = (False, w, l)" and i: "insert_front e v w l = (False, w, l)"
    by (simp_all add: append_def insert_front_def priv_add_def)
  from append_succeeds [OF wf ac ok, of v'] obtain w' where
    r: "append e' v' w l = (True, w', l\<lparr>fCount := fCount l + 1\<rparr>)"
    and wf': "wellformed w' (l\<lparr>fCount := fCount l + 1\<rparr>) (xs @ [allocate_result e'])"
    and m: "map (val w') (xs @ [allocate_result e']) = map (val w) xs @ [v']"
    by auto
  from wellformed_to_list [OF wf'] wellformed_to_list(2) [OF wf] m
  have "to_list w' (l\<lparr>fCount := fCount l + 1\<rparr>) = Some (map (val w) xs @ [v'])"
    and "unat (count (l\<lparr>fCount := fCount l + 1\<rparr>)) = Suc (unat (count l))"
    by simp_all
  with a i r show ?thesis by simp
qed

theorem allocation_failure_leaves_list_unchanged_witness:
  "append (gives 0) ''c'' (fst two_items) (snd two_items) = (False, fst two_items, snd two_items)
   \<and> unat (count (snd two_items)) = 2
   \<and> (\<exists>w' l'. append (gives 0x4000) ''c''
                  (fst (snd (append (gives 0) ''c'' (fst two_items) (snd two_items))))
                  (snd (snd (append (gives 0) ''c'' (fst two_items) (snd two_items))))
                = (True, w', l')
         \<and> unat (count l') = 3 \<and> to_list w' l' = Some [''a'', ''b'', ''c''])"
proof -
  have f: "allocate_result (gives 0) = 0" by (simp add: gives_def)
  have ac: "allocator_contract (gives 0x4000) (fst two_items) (snd two_items)"
    by (simp add: state_defs ops_defs more_defs)
  have ok: "succeeds (gives 0x4000) (snd two_items)"
    by (simp add: state_defs ops_defs more_defs)
  have c: "unat (count (snd two_items)) = 2"
    using wellformed_to_list(2) [OF two_items_wellformed] by simp
  have v: "map (val (fst two_items)) [0x2000, 0x3000] = [''a'', ''b'']"
    by (simp add: state_defs ops_defs more_defs)
  note T = allocation_failure_leaves_list_unchanged
    [OF two_items_wellformed f ac ok, of "''c''" "''c''"]
  from T have a: "append (gives 0) ''c'' (fst two_items) (snd two_items)
      = (False, fst two_items, snd two_items)"
    by (rule conjunct1)
  from T have "\<exists>w' l'. append (gives 0x4000) ''c''
                  (fst (snd (append (gives 0) ''c'' (fst two_items) (snd two_items))))
                  (snd (snd (append (gives 0) ''c'' (fst two_items) (snd two_items))))
                = (True, w', l')
         \<and> unat (count l') = Suc (unat (count (snd two_items)))
         \<and> to_list w' l' = Some (map (val (fst two_items)) [0x2000, 0x3000] @ [''c''])"
    by (rule conjunct2 [THEN conjunct2])
  then have "\<exists>w' l'. append (gives 0x4000) ''c''
                  (fst (snd (append (gives 0) ''c'' (fst two_items) (snd two_items))))
                  (snd (snd (append (gives 0) ''c'' (fst two_items) (snd two_items))))
                = (True, w', l')
         \<and> unat (count l') = 3 \<and> to_list w' l' = Some [''a'', ''b'', ''c'']"
    unfolding v c by simp
  with a c show ?thesis by (intro conjI)
qed

text \<open>
  C4. Under the constructed discipline (\<^verbatim>\<open>needsCopyCtr\<close> true), on every well-formed
  list, when \<^verbatim>\<open>_allocate\<close> hands out a block and the construction or the assignment of
  the value throws, \<^verbatim>\<open>append\<close> and \<^verbatim>\<open>insert\<close> return false, the block is given back
  (the set of live blocks is what it was before the call and does not hold the block),
  and the list object, its count and its element sequence are unchanged.
\<close>

theorem construction_failure_releases_node:
  assumes wf: "wellformed w l xs" and c: "fNeedsCopyCtr l" and nz: "allocate_result e \<noteq> 0"
    and ac: "allocator_contract e w l" and t: "ctor_throws e \<or> assign_throws e"
  shows "(\<exists>w'. append e v w l = (False, w', l)
            \<and> allocated w' = allocated w \<and> allocate_result e \<notin> allocated w'
            \<and> wellformed w' l xs \<and> to_list w' l = to_list w l)
       \<and> (\<exists>w'. insert_front e v w l = (False, w', l)
            \<and> allocated w' = allocated w \<and> allocate_result e \<notin> allocated w'
            \<and> wellformed w' l xs \<and> to_list w' l = to_list w l)"
  using priv_add_throwing [OF wf c nz ac t, of v True "fQueue l"]
    priv_add_throwing [OF wf c nz ac t, of v False "fQueue l"]
  by (simp add: append_def insert_front_def)

theorem construction_failure_releases_node_witness:
  "(\<exists>w'. append (throwing 0x4000) ''c'' (fst two_items) (snd two_items) = (False, w', snd two_items)
       \<and> allocated w' = {0x2000, 0x3000} \<and> 0x4000 \<notin> allocated w'
       \<and> to_list w' (snd two_items) = Some [''a'', ''b''])
   \<and> (\<exists>w'. insert_front (throwing 0x4000) ''c'' (fst two_items) (snd two_items)
              = (False, w', snd two_items)
       \<and> allocated w' = {0x2000, 0x3000} \<and> 0x4000 \<notin> allocated w'
       \<and> to_list w' (snd two_items) = Some [''a'', ''b''])"
proof -
  have c: "fNeedsCopyCtr (snd two_items)" and nz: "allocate_result (throwing 0x4000) \<noteq> 0"
    and ac: "allocator_contract (throwing 0x4000) (fst two_items) (snd two_items)"
    and t: "ctor_throws (throwing 0x4000) \<or> assign_throws (throwing 0x4000)"
    by (simp_all add: state_defs ops_defs more_defs)
  have n: "allocate_result (throwing 0x4000) = 0x4000" by (simp add: throwing_def gives_def)
  have a: "allocated (fst two_items) = {0x2000, 0x3000}"
    by (auto simp: state_defs ops_defs more_defs)
  have v: "map (val (fst two_items)) [0x2000, 0x3000] = [''a'', ''b'']"
    by (simp add: state_defs ops_defs more_defs)
  from wellformed_to_list(1) [OF two_items_wellformed] v
  have tl: "to_list (fst two_items) (snd two_items) = Some [''a'', ''b'']" by simp
  from construction_failure_releases_node [OF two_items_wellformed c nz ac t, of "''c''"]
  show ?thesis by (simp only: n a tl) auto
qed

text \<open>
  C5. For every list of values, each with an allocator answer under which the insertion
  succeeds and the allocator keeps its contract: appending them one after the other to
  a newly constructed list returns, and head-to-tail iteration then yields exactly these
  values in insertion order; inserting (prepending) them one after the other yields
  them in reverse insertion order. In both cases the count is the number of values.
\<close>

theorem append_keeps_order_insert_reverses:
  assumes ok: "\<forall>(e, v)\<in>set evs. succeeds e (snd (new_list q c rv w0))"
  shows "(run (appends evs) (fst (new_list q c rv w0)) (snd (new_list q c rv w0)) \<noteq> Misuse \<longrightarrow>
           (\<exists>w l. run (appends evs) (fst (new_list q c rv w0)) (snd (new_list q c rv w0))
                     = Finished (w, l)
               \<and> to_list w l = Some (map snd evs) \<and> unat (count l) = length evs))
       \<and> (run (inserts evs) (fst (new_list q c rv w0)) (snd (new_list q c rv w0)) \<noteq> Misuse \<longrightarrow>
           (\<exists>w l. run (inserts evs) (fst (new_list q c rv w0)) (snd (new_list q c rv w0))
                     = Finished (w, l)
               \<and> to_list w l = Some (rev (map snd evs)) \<and> unat (count l) = length evs))"
proof (intro conjI impI)
  assume "run (appends evs) (fst (new_list q c rv w0)) (snd (new_list q c rv w0)) \<noteq> Misuse"
  from run_appends [OF wellformed_new_list ok this] obtain w l xs where
    r: "run (appends evs) (fst (new_list q c rv w0)) (snd (new_list q c rv w0)) = Finished (w, l)"
    and wf: "wellformed w l xs" and m: "map (val w) xs = map snd evs"
    by auto
  from m have "length xs = length evs" by (metis length_map)
  with r wellformed_to_list [OF wf] m
  show "\<exists>w l. run (appends evs) (fst (new_list q c rv w0)) (snd (new_list q c rv w0))
                 = Finished (w, l)
           \<and> to_list w l = Some (map snd evs) \<and> unat (count l) = length evs"
    by simp
next
  assume "run (inserts evs) (fst (new_list q c rv w0)) (snd (new_list q c rv w0)) \<noteq> Misuse"
  from run_inserts [OF wellformed_new_list ok this] obtain w l xs where
    r: "run (inserts evs) (fst (new_list q c rv w0)) (snd (new_list q c rv w0)) = Finished (w, l)"
    and wf: "wellformed w l xs" and m: "map (val w) xs = rev (map snd evs)"
    by auto
  from m have "length xs = length evs" by (metis length_map length_rev)
  with r wellformed_to_list [OF wf] m
  show "\<exists>w l. run (inserts evs) (fst (new_list q c rv w0)) (snd (new_list q c rv w0))
                 = Finished (w, l)
           \<and> to_list w l = Some (rev (map snd evs)) \<and> unat (count l) = length evs"
    by simp
qed

theorem append_keeps_order_insert_reverses_witness:
  "(\<exists>w l. run (appends three_values) (fst (new_list 0x1000 False [] blank))
             (snd (new_list 0x1000 False [] blank)) = Finished (w, l)
        \<and> to_list w l = Some [''a'', ''b'', ''c''] \<and> unat (count l) = 3)
   \<and> (\<exists>w l. run (inserts three_values) (fst (new_list 0x1000 False [] blank))
             (snd (new_list 0x1000 False [] blank)) = Finished (w, l)
        \<and> to_list w l = Some [''c'', ''b'', ''a''] \<and> unat (count l) = 3)"
proof -
  have ok: "\<forall>(e, v)\<in>set three_values. succeeds e (snd (new_list 0x1000 False [] blank))"
    by (simp add: three_values_def state_defs ops_defs more_defs)
  have a: "run (appends three_values) (fst (new_list 0x1000 False [] blank))
             (snd (new_list 0x1000 False [] blank)) \<noteq> Misuse"
    by (simp add: three_values_def appends_def state_defs ops_defs more_defs)
  have i: "run (inserts three_values) (fst (new_list 0x1000 False [] blank))
             (snd (new_list 0x1000 False [] blank)) \<noteq> Misuse"
    by (simp add: three_values_def inserts_def state_defs ops_defs more_defs)
  have v: "map snd three_values = [''a'', ''b'', ''c'']" "length three_values = 3"
    by (simp_all add: three_values_def)
  from append_keeps_order_insert_reverses [OF ok] a i show ?thesis
    by (simp only: v) simp
qed

text \<open>
  C7. For two well-formed lists in one memory that share no node, \<^verbatim>\<open>spliceAppend\<close>
  with \<^verbatim>\<open>init\<close> true, called on the list \<open>this\<close> holding N elements with the list
  \<open>other\<close> as argument, puts all N elements of \<open>this\<close> after the elements of
  \<open>other\<close>, in their original order, leaves \<open>this\<close> empty with \<^verbatim>\<open>count()\<close> 0, and
  makes the count of \<open>other\<close> its old count plus N.
\<close>

theorem spliceAppend_moves_everything:
  assumes wa: "wellformed w this xs" and wb: "wellformed w other ys"
    and dj: "set (fQueue this # xs) \<inter> set (fQueue other # ys) = {}"
  shows "\<exists>w' this' other'. spliceAppend True w this other = (w', this', other')
           \<and> to_list w this = Some (map (val w) xs)
           \<and> to_list w other = Some (map (val w) ys)
           \<and> to_list w' other' = Some (map (val w) ys @ map (val w) xs)
           \<and> count this' = 0 \<and> to_list w' this' = Some []
           \<and> unat (count other') = unat (count other) + length xs"
proof -
  define w' where "w' = list_splice_tail_init (fQueue this) (fQueue other) w"
  define other' where "other' = other\<lparr>fCount := fCount other + fCount this\<rparr>"
  have r: "spliceAppend True w this other = (w', this\<lparr>fCount := 0\<rparr>, other')"
    by (simp add: spliceAppend_def w'_def other'_def)
  from splice_destination(2) [OF wa wb dj other'_def]
  have wo: "wellformed w' other' (ys @ xs)" by (simp add: w'_def)
  from splice_source_emptied(1) [OF wa]
  have wt: "wellformed w' (this\<lparr>fCount := 0\<rparr>) []" by (simp add: w'_def)
  have v: "val w' = val w" by (simp add: w'_def)
  from wellformed_to_list [OF wo] v
  have "to_list w' other' = Some (map (val w) ys @ map (val w) xs)"
    and "unat (count other') = length ys + length xs"
    by simp_all
  moreover from wellformed_to_list [OF wt]
  have "to_list w' (this\<lparr>fCount := 0\<rparr>) = Some []" by simp
  moreover have "count (this\<lparr>fCount := 0\<rparr>) = 0" by (simp add: count_def)
  ultimately show ?thesis
    using r wellformed_to_list [OF wa] wellformed_to_list [OF wb] by simp
qed

theorem spliceAppend_moves_everything_witness:
  "\<exists>w' this' other'. spliceAppend True tl_world tl_first tl_second = (w', this', other')
     \<and> to_list tl_world tl_first = Some [''a'', ''b'', ''c'']
     \<and> to_list tl_world tl_second = Some [''x'', ''y'']
     \<and> to_list w' other' = Some [''x'', ''y'', ''a'', ''b'', ''c'']
     \<and> count this' = 0 \<and> to_list w' this' = Some []
     \<and> unat (count other') = 5"
proof -
  have c: "unat (count tl_second) = 2"
    using wellformed_to_list(2) [OF two_lists_wellformed(2)] by simp
  from spliceAppend_moves_everything [OF two_lists_wellformed]
  show ?thesis unfolding two_lists_values c by simp
qed

text \<open>
  C10. With \<^verbatim>\<open>init\<close> false, \<^verbatim>\<open>spliceAppend\<close> and \<^verbatim>\<open>spliceInsert\<close> add the count of
  the source list \<open>this\<close> to the count of the destination \<open>other\<close> and leave the
  count of \<open>this\<close> as it was. For two well-formed lists that share no node, the
  destination then holds its own elements and those of the source (after them for
  \<^verbatim>\<open>spliceAppend\<close>, before them for \<^verbatim>\<open>spliceInsert\<close>) and its count is their
  number, while the source still counts its elements: both counts include the shared
  elements.
\<close>

theorem splice_without_detach_keeps_source_count:
  "count (snd (snd (spliceAppend False w this other))) = count other + count this
   \<and> count (fst (snd (spliceAppend False w this other))) = count this
   \<and> count (snd (snd (spliceInsert False w this other))) = count other + count this
   \<and> count (fst (snd (spliceInsert False w this other))) = count this
   \<and> (wellformed w this xs \<and> wellformed w other ys
        \<and> set (fQueue this # xs) \<inter> set (fQueue other # ys) = {} \<longrightarrow>
        to_list (fst (spliceAppend False w this other)) (snd (snd (spliceAppend False w this other)))
          = Some (map (val w) ys @ map (val w) xs)
      \<and> to_list (fst (spliceInsert False w this other)) (snd (snd (spliceInsert False w this other)))
          = Some (map (val w) xs @ map (val w) ys)
      \<and> unat (count other + count this) = length ys + length xs
      \<and> unat (count this) = length xs)"
proof -
  have c: "count (snd (snd (spliceAppend False w this other))) = count other + count this"
    "count (fst (snd (spliceAppend False w this other))) = count this"
    "count (snd (snd (spliceInsert False w this other))) = count other + count this"
    "count (fst (snd (spliceInsert False w this other))) = count this"
    by (simp_all add: spliceAppend_def spliceInsert_def count_def)
  have t: "to_list (fst (spliceAppend False w this other))
             (snd (snd (spliceAppend False w this other)))
             = Some (map (val w) ys @ map (val w) xs)
      \<and> to_list (fst (spliceInsert False w this other))
             (snd (snd (spliceInsert False w this other)))
             = Some (map (val w) xs @ map (val w) ys)
      \<and> unat (count other + count this) = length ys + length xs
      \<and> unat (count this) = length xs"
    if wa: "wellformed w this xs" and wb: "wellformed w other ys"
      and dj: "set (fQueue this # xs) \<inter> set (fQueue other # ys) = {}"
  proof -
    define other' where "other' = other\<lparr>fCount := fCount other + fCount this\<rparr>"
    from splice_destination(1) [OF wa wb dj other'_def]
    have 1: "wellformed (list_splice_tail (fQueue this) (fQueue other) w) other' (ys @ xs)" .
    from splice_destination(3) [OF wa wb dj other'_def]
    have 2: "wellformed (list_splice (fQueue this) (fQueue other) w) other' (xs @ ys)" .
    from wellformed_to_list [OF 1] wellformed_to_list [OF 2] wellformed_to_list(2) [OF wa]
      splice_count [OF wa wb dj]
    show ?thesis
      by (simp add: spliceAppend_def spliceInsert_def other'_def count_def)
  qed
  from c t show ?thesis by blast
qed

theorem splice_without_detach_keeps_source_count_witness:
  "unat (count (snd (snd (spliceAppend False tl_world tl_first tl_second)))) = 5
   \<and> unat (count (fst (snd (spliceAppend False tl_world tl_first tl_second)))) = 3
   \<and> to_list (fst (spliceAppend False tl_world tl_first tl_second))
        (snd (snd (spliceAppend False tl_world tl_first tl_second)))
       = Some [''x'', ''y'', ''a'', ''b'', ''c'']
   \<and> to_list (fst (spliceInsert False tl_world tl_first tl_second))
        (snd (snd (spliceInsert False tl_world tl_first tl_second)))
       = Some [''a'', ''b'', ''c'', ''x'', ''y'']"
proof -
  note T = splice_without_detach_keeps_source_count
    [of tl_world tl_first tl_second "[0x2000, 0x3000, 0x4000]" "[0x5000, 0x6000]"]
  from T two_lists_wellformed
  have "to_list (fst (spliceAppend False tl_world tl_first tl_second))
          (snd (snd (spliceAppend False tl_world tl_first tl_second)))
         = Some (map (val tl_world) [0x5000, 0x6000] @ map (val tl_world) [0x2000, 0x3000, 0x4000])"
    and "to_list (fst (spliceInsert False tl_world tl_first tl_second))
          (snd (snd (spliceInsert False tl_world tl_first tl_second)))
         = Some (map (val tl_world) [0x2000, 0x3000, 0x4000] @ map (val tl_world) [0x5000, 0x6000])"
    and "unat (count tl_second + count tl_first) = length [0x5000, 0x6000 :: addr] + length [0x2000, 0x3000, 0x4000 :: addr]"
    and "unat (count tl_first) = length [0x2000, 0x3000, 0x4000 :: addr]"
    by blast+
  moreover from T
  have "count (snd (snd (spliceAppend False tl_world tl_first tl_second))) = count tl_second + count tl_first"
    and "count (fst (snd (spliceAppend False tl_world tl_first tl_second))) = count tl_first"
    by blast+
  ultimately show ?thesis by (simp only: two_lists_values) simp
qed

text \<open>
  C9. For every extension string, \<^verbatim>\<open>getMimeTypesForFileExtension\<close> returns exactly
  the \<^verbatim>\<open>mimeType\<close> of every row of the 641-row table whose \<^verbatim>\<open>fileExtension\<close> is
  equal to it, character by character, in table order and with duplicates kept; so an
  extension that matches no row, as "ZIP" in upper case, gives the empty result, and
  "zip" gives its four types in table order.
\<close>

theorem mime_lookup_is_table_filter:
  "getMimeTypesForFileExtension ext
     = map mimeType (filter (\<lambda>e. fileExtension e = ext) table)
   \<and> length table = 641
   \<and> getMimeTypesForFileExtension ''ZIP'' = []
   \<and> getMimeTypesForFileExtension ''zip''
       = [''application/x-compressed'', ''application/x-zip-compressed'',
          ''application/zip'', ''multipart/x-zip'']"
proof -
  have "getMimeTypesForFileExtension ''ZIP'' = []"
    by (simp add: getMimeTypesForFileExtension_def table_defs)
  moreover have "getMimeTypesForFileExtension ''zip''
       = [''application/x-compressed'', ''application/x-zip-compressed'',
          ''application/zip'', ''multipart/x-zip'']"
    by (simp add: getMimeTypesForFileExtension_def table_defs)
  ultimately show ?thesis
    by (simp add: getMimeTypesForFileExtension_def mime_scan_filter table_length)
qed

text \<open>
  C6. The iterator holds the current and the next node from its construction on and
  after every \<^verbatim>\<open>next()\<close>. Therefore, on every well-formed list, a loop that reads each
  element with \<^verbatim>\<open>getValue()\<close> and calls \<^verbatim>\<open>remove(it)\<close> on some of them, chosen by
  position, still ends and reads every element once, in order; afterwards the list
  holds the elements that were not removed, in order, and \<^verbatim>\<open>count()\<close> is their number.
  On a list of three elements with the second one removed, the loop reads all three,
  the list then holds the first and the third, and \<^verbatim>\<open>count()\<close> is 2.
\<close>

theorem remove_during_iteration_keeps_iterating:
  assumes wf: "wellformed w l xs"
  shows "\<exists>w' l'. iterate_removing rm w l = Some (map (val w) xs, w', l')
           \<and> to_list w' l' = Some (kept rm 0 (map (val w) xs))
           \<and> unat (count l') = length (kept rm 0 xs)
           \<and> fEntry2 (begin_it w l) = nxt w (fEntry (begin_it w l))
           \<and> (\<forall>it. fEntry (it_next w it) = fEntry2 it
                  \<and> fEntry2 (it_next w it) = nxt w (fEntry (it_next w it)))"
proof -
  from wf have wf0: "wellformed w l ([] @ xs)" and r: "ring w (fQueue l) ([] @ xs)"
    by (simp_all add: wellformed_def)
  from ring_neighbours(1) [OF r] have b: "begin_it w l
      = \<lparr>fData = 0, fEntry = hd (xs @ [fQueue l]),
         fEntry2 = nxt w (hd (xs @ [fQueue l])), fQueueRef = fQueue l\<rparr>"
    by (simp add: begin_it_def new_Itenerator_def)
  from visit_loop_wellformed [OF wf0, of rm 0 0] obtain w' l' where
    res: "iterate_removing rm w l = Some (map (val w) xs, w', l')"
    and wf': "wellformed w' l' (kept rm 0 xs)" and v: "val w' = val w"
    by (auto simp: iterate_removing_def b)
  from wellformed_to_list [OF wf'] v
  have "to_list w' l' = Some (kept rm 0 (map (val w) xs))"
    and "unat (count l') = length (kept rm 0 xs)"
    by (simp_all add: map_kept)
  with res show ?thesis
    by (simp add: begin_it_def new_Itenerator_def it_next_def)
qed

theorem remove_during_iteration_keeps_iterating_witness:
  "\<exists>w' l'. iterate_removing (\<lambda>i. i = Suc 0) (fst abc) (snd abc)
             = Some ([''a'', ''b'', ''c''], w', l')
     \<and> to_list w' l' = Some [''a'', ''c''] \<and> unat (count l') = 2"
proof -
  have v: "map (val (fst abc)) [0x2000, 0x3000, 0x4000] = [''a'', ''b'', ''c'']"
    by (simp add: state_defs ops_defs more_defs)
  from remove_during_iteration_keeps_iterating [OF abc_wellformed, of "\<lambda>i. i = Suc 0"]
  obtain w' l' where
    "iterate_removing (\<lambda>i. i = Suc 0) (fst abc) (snd abc)
       = Some (map (val (fst abc)) [0x2000, 0x3000, 0x4000], w', l')"
    "to_list w' l' = Some (kept (\<lambda>i. i = Suc 0) 0 (map (val (fst abc)) [0x2000, 0x3000, 0x4000]))"
    "unat (count l') = length (kept (\<lambda>i. i = Suc 0) 0 [0x2000, 0x3000, 0x4000 :: addr])"
    by blast
  then have "iterate_removing (\<lambda>i. i = Suc 0) (fst abc) (snd abc)
             = Some ([''a'', ''b'', ''c''], w', l')
     \<and> to_list w' l' = Some [''a'', ''c''] \<and> unat (count l') = 2"
    unfolding v by simp
  then show ?thesis by blast
qed

end
